theory Spec2Isabelle
  imports Main "HOL-Library.Sublist"
begin

section \<open>Data model\<close>

text \<open>
  Go strings are byte sequences; they are modelled as \<open>string\<close> (lists of 8-bit
  characters). Pointers to \<open>Repository\<close> values are addresses into a heap, so that
  sharing between the resolution cache, the dependency list and the enrichment workers
  is visible in the model.
\<close>

text \<open>\<open>module.Version\<close> of golang.org/x/mod: the fields the program reads. The field
  \<open>Version\<close> is named \<open>mod_Version\<close> here, since \<open>Repository\<close> has a field of the
  same name.\<close>

record module_Version =
  Path :: string
  mod_Version :: string

text \<open>\<open>type Repository struct\<close> (all fields are Go strings; the zero value of each is
  the empty string).\<close>

record Repository =
  Name :: string
  Shortname :: string
  URL :: string
  Host :: string
  Author :: string
  Project :: string
  Text :: string
  License :: string
  Version :: string

definition Repository_zero :: Repository where
  "Repository_zero =
     \<lparr>Name = [], Shortname = [], URL = [], Host = [], Author = [], Project = [],
      Text = [], License = [], Version = []\<rparr>"

text \<open>Go error values. \<open>ErrNoGoMod\<close> and \<open>ErrNoAPIKey\<close> are the two package-level
  errors; every other error (file system, manifest grammar, network, writer) is opaque to
  the program and carries its message.\<close>

datatype error = ErrNoGoMod | ErrNoAPIKey | Err string

text \<open>The memory the resolver works on: the package-level \<open>cache\<close>
  (\<open>map[string]*Repository\<close>) and the heap of allocated \<open>Repository\<close> objects. An
  address is an index into \<open>heap\<close>; \<open>&Repository{...}\<close> allocates at the end.\<close>

record memory =
  cache :: "string \<rightharpoonup> nat"
  heap :: "Repository list"

definition init_memory :: memory where
  "init_memory = \<lparr>cache = Map.empty, heap = []\<rparr>"

definition new_Repository :: "memory \<Rightarrow> Repository \<Rightarrow> nat \<times> memory" where
  "new_Repository s r = (length (heap s), s\<lparr>heap := heap s @ [r]\<rparr>)"

section \<open>Repository resolution\<close>

text \<open>\<open>strings.Split(s, sep)\<close> for a one-byte separator: the pieces between the
  occurrences of the separator; always at least one piece.\<close>

fun Split :: "string \<Rightarrow> char \<Rightarrow> string list" where
  "Split [] c = [[]]"
| "Split (x # xs) c =
     (if x = c then [] # Split xs c
      else (case Split xs c of [] \<Rightarrow> [[x]] | w # ws \<Rightarrow> (x # w) # ws))"

text \<open>\<open>getOtherRepo\<close>: consult the cache by module path; on a hit return the cached
  pointer, on a miss allocate a \<open>Repository\<close> on the metadata host, store it in the
  cache and return it.\<close>

definition getOtherRepo :: "memory \<Rightarrow> module_Version \<Rightarrow> nat \<times> memory" where
  "getOtherRepo s m =
     (let name = Path m in
      case cache s name of
        Some v \<Rightarrow> (v, s)
      | None \<Rightarrow>
          (let lcs = Repository_zero\<lparr>Name := name, Version := mod_Version m\<rparr>;
               lcs = lcs\<lparr>URL := ''https://pkg.go.dev/'' @ name\<rparr>;
               lcs = lcs\<lparr>Host := ''pkg.go.dev''\<rparr>;
               (a, s') = new_Repository s lcs
           in (a, s'\<lparr>cache := (cache s')(name \<mapsto> a)\<rparr>)))"

text \<open>The statements of \<open>getRepository\<close> that follow its first \<open>return\<close> (the
  \<open>switch\<close> on the first path segment). They are written out here to be compared with
  what \<open>getRepository\<close> does; no call reaches them.\<close>

definition getRepository_rest :: "memory \<Rightarrow> module_Version \<Rightarrow> nat \<times> memory" where
  "getRepository_rest s m =
     (let s0 = Path m; spl = Split s0 CHR ''/'' in
      if hd spl \<in> {''github.com'', ''gitlab.com'', ''bitbucket.org''} then
        (if length spl < 3 then new_Repository s (Repository_zero\<lparr>Name := s0\<rparr>)
         else new_Repository s
           (Repository_zero\<lparr>URL := ''https://'' @ spl ! 0 @ ''/'' @ spl ! 1 @ ''/'' @ spl ! 2,
              Host := spl ! 0, Author := spl ! 1, Project := spl ! 2, Name := s0,
              Version := mod_Version m\<rparr>))
      else if hd spl = ''gopkg.in'' then
        (if length spl < 3 then new_Repository s (Repository_zero\<lparr>Name := s0\<rparr>)
         else new_Repository s
           (Repository_zero\<lparr>URL := ''https://github.com/'' @ spl ! 1 @ ''/''
                  @ hd (Split (spl ! 2) CHR ''.''),
              Host := ''github.com'', Author := spl ! 1,
              Project := hd (Split (spl ! 2) CHR ''.''), Name := s0,
              Version := mod_Version m\<rparr>))
      else getOtherRepo s m)"

text \<open>\<open>getRepository\<close>: its first statement is \<open>return getOtherRepo(mod)\<close>, so this
  is all it executes.\<close>

definition getRepository :: "memory \<Rightarrow> module_Version \<Rightarrow> nat \<times> memory" where
  "getRepository s m = getOtherRepo s m"

text \<open>The loop of \<open>ListRepositories\<close>: \<open>repos[i] = getRepository(mod)\<close> for each
  module in order.\<close>

fun resolve_all :: "memory \<Rightarrow> module_Version list \<Rightarrow> nat list \<times> memory" where
  "resolve_all s [] = ([], s)"
| "resolve_all s (m # ms) =
     (let (a, s1) = getRepository s m; (as, s2) = resolve_all s1 ms in (a # as, s2))"

text \<open>What resolution and enrichment maintain about a cached object: it carries the key
  as \<open>Name\<close>, the metadata host and URL, and no \<open>Author\<close>.\<close>

definition cached_for :: "string \<Rightarrow> Repository \<Rightarrow> bool" where
  "cached_for k r \<longleftrightarrow>
     Name r = k \<and> Host r = ''pkg.go.dev'' \<and> URL r = ''https://pkg.go.dev/'' @ k
     \<and> Author r = []"

text \<open>The invariant of the memory: every cached pointer is allocated and points to such
  an object.\<close>

definition cache_ok :: "memory \<Rightarrow> bool" where
  "cache_ok s \<longleftrightarrow>
     (\<forall>k a. cache s k = Some a \<longrightarrow> a < length (heap s) \<and> cached_for k (heap s ! a))"

text \<open>Pointers are never dangling: every cached pointer is allocated.\<close>

definition allocated :: "memory \<Rightarrow> bool" where
  "allocated s \<longleftrightarrow> (\<forall>k a. cache s k = Some a \<longrightarrow> a < length (heap s))"

section \<open>The environment of the program\<close>

text \<open>\<open>color.Attribute\<close> of github.com/fatih/color: the attributes the program names,
  and \<open>Reset\<close>, the zero value.\<close>

datatype Attribute =
  Reset | FgRed | FgGreen | FgYellow | FgBlue | FgMagenta | FgCyan
  | FgHiRed | FgHiGreen | FgHiYellow | FgHiBlue | FgHiMagenta | FgHiCyan | FgHiWhite

text \<open>Library functions whose result depends on Unicode tables, on the terminal or on
  the manifest grammar are parameters of the model: \<open>strings.TrimSpace\<close>,
  \<open>strings.EqualFold\<close>, \<open>strings.ToLower\<close>, \<open>color.New(clr).Sprintf(format)\<close>,
  \<open>filepath.Join\<close> and \<open>modfile.Parse\<close> (of which the program reads the \<open>Require\<close>
  entries only).\<close>

record require =
  Mod :: module_Version
  Indirect :: bool

record lib =
  TrimSpace :: "string \<Rightarrow> string"
  EqualFold :: "string \<Rightarrow> string \<Rightarrow> bool"
  ToLower :: "string \<Rightarrow> string"
  Sprintf :: "Attribute \<Rightarrow> string \<Rightarrow> string"
  Join :: "string list \<Rightarrow> string"
  modfile_Parse :: "string \<Rightarrow> string \<Rightarrow> error + require list"

text \<open>What the license-lookup API returns on success: \<open>Key\<close> is \<open>*rl.License.Key\<close>
  (\<open>None\<close> when \<open>rl.License\<close> or its \<open>Key\<close> is nil), \<open>Content\<close> is
  \<open>rl.GetContent()\<close>.\<close>

record RepositoryLicense =
  Key :: "string option"
  Content :: string

text \<open>What the three \<open>OnHTML\<close> callbacks see of a fetched page: for each element that
  matches a selector, in document order, the text \<open>e.ChildText("a")\<close>.\<close>

record page =
  UnitHeader_version :: "string list"
  UnitHeader_licenses :: "string list"
  UnitMeta_repo :: "string list"

text \<open>The world outside the process: environment variables, files, the license-lookup
  API (by author and project) and page fetches (by URL).\<close>

record world =
  environ :: "string \<rightharpoonup> string"
  ReadFile :: "string \<Rightarrow> error + string"
  Repositories_License :: "string \<Rightarrow> string \<Rightarrow> error + RepositoryLicense"
  Visit :: "string \<Rightarrow> error + page"

text \<open>\<open>os.Getenv\<close>: the empty string when the variable is not set.\<close>

definition Getenv :: "world \<Rightarrow> string \<Rightarrow> string" where
  "Getenv W k = (case environ W k of None \<Rightarrow> [] | Some v \<Rightarrow> v)"

text \<open>Observable effects, in the order they happen: file reads, network calls, lines
  written with \<open>log\<close> and lines printed to standard output.\<close>

datatype event =
  Read_File string
  | Call_License string string
  | Call_Star string string
  | Call_Visit string
  | Log_Found nat
  | Log_Fetching string
  | Log_Error error
  | Println_error string error

text \<open>A call either returns a value or panics.\<close>

datatype 'a outcome = Return 'a | Panic

section \<open>The manifest\<close>

definition goMod :: string where
  "goMod = ''go.mod''"

text \<open>\<open>mod.Parse\<close>: read and parse the manifest; keep the module of every requirement
  except the indirect ones when \<open>withIndirect\<close> is false.\<close>

definition Parse ::
  "lib \<Rightarrow> world \<Rightarrow> string \<Rightarrow> bool \<Rightarrow> event list \<times> (error + module_Version list)" where
  "Parse L W path withIndirect =
     (let file = Join L [path, goMod] in
      case ReadFile W file of
        Inl err \<Rightarrow> ([Read_File file], Inl err)
      | Inr bts \<Rightarrow>
          (case modfile_Parse L ''go.mod'' bts of
             Inl err \<Rightarrow> ([Read_File file], Inl err)
           | Inr reqs \<Rightarrow>
               ([Read_File file],
                Inr (map Mod (filter (\<lambda>f. \<not> (Indirect f \<and> \<not> withIndirect)) reqs)))))"

definition ListRepositories ::
  "lib \<Rightarrow> world \<Rightarrow> memory \<Rightarrow> string \<Rightarrow> bool \<Rightarrow> event list \<times> (error + nat list) \<times> memory" where
  "ListRepositories L W s path withIndirect =
     (case Parse L W path withIndirect of
        (evs, Inl err) \<Rightarrow> (evs, Inl err, s)
      | (evs, Inr modules) \<Rightarrow>
          (let (repos, s') = resolve_all s modules in (evs, Inr repos, s')))"

section \<open>License enrichment\<close>

record licenseFormat =
  name :: string
  color :: Attribute

definition licenseCol :: "string \<rightharpoonup> licenseFormat" where
  "licenseCol = map_of
     [(''other'', \<lparr>name = ''Other'', color = FgBlue\<rparr>),
      (''mit'', \<lparr>name = ''MIT'', color = FgGreen\<rparr>),
      (''lgpl-3.0'', \<lparr>name = ''LGPL-3.0'', color = FgCyan\<rparr>),
      (''mpl-2.0'', \<lparr>name = ''MPL-2.0'', color = FgHiBlue\<rparr>),
      (''agpl-3.0'', \<lparr>name = ''AGPL-3.0'', color = FgHiCyan\<rparr>),
      (''unlicense'', \<lparr>name = ''Unlicense'', color = FgHiRed\<rparr>),
      (''apache-2.0'', \<lparr>name = ''Apache-2.0'', color = FgHiGreen\<rparr>),
      (''gpl-3.0'', \<lparr>name = ''GPL-3.0'', color = FgHiMagenta\<rparr>)]"

definition licenseColMap :: "string \<rightharpoonup> Attribute" where
  "licenseColMap = map_of
     [(''mit'', FgGreen),
      (''apache-2.0'', FgHiGreen),
      (''gpl-2.0'', FgMagenta),
      (''gpl-3.0'', FgHiMagenta),
      (''lgpl-2.1'', FgCyan),
      (''lgpl-3.0'', FgHiCyan),
      (''mpl-2.0'', FgHiBlue),
      (''bsd-2-clause'', FgYellow),
      (''bsd-3-clause'', FgHiYellow),
      (''epl-2.0'', FgRed),
      (''artistic-2.0'', FgHiRed),
      (''bsl-1.0'', FgBlue),
      (''cc0-1.0'', FgHiWhite),
      (''unlicense'', FgHiRed),
      (''agpl-3.0'', FgHiCyan),
      (''other'', FgBlue)]"

definition getLicenseColor :: "lib \<Rightarrow> string \<Rightarrow> Attribute" where
  "getLicenseColor L license =
     (case licenseColMap (ToLower L license) of Some c \<Rightarrow> c | None \<Rightarrow> FgYellow)"

text \<open>\<open>gitClient\<close>: whether the GitHub client is authenticated (\<open>gh.logged\<close>) and
  whether starring was asked for.\<close>

record gitClient =
  logged :: bool
  star :: bool

definition newGitClient :: "(string \<rightharpoonup> string) \<Rightarrow> bool \<Rightarrow> gitClient" where
  "newGitClient keys star' =
     (let v = (case keys ''github.com'' of None \<Rightarrow> [] | Some k \<Rightarrow> k)
      in \<lparr>logged = (v \<noteq> []), star = star'\<rparr>)"

text \<open>The callback on \<open>span[data-test-id="UnitHeader-version"]\<close>. The slice
  \<open>version[9:]\<close> panics when the text has fewer than nine bytes.\<close>

definition on_version :: "lib \<Rightarrow> string \<Rightarrow> Repository \<Rightarrow> Repository outcome" where
  "on_version L text r =
     (if length text < 9 then Panic
      else
        (let version = drop 9 text;
             version = hd (Split version CHR ''G'');
             version = TrimSpace L version
         in if \<not> EqualFold L (Version r) version
            then Return (r\<lparr>Version := Version r @ '' (!new:'' @ version @ '')''\<rparr>)
            else Return r))"

text \<open>The version that the callback extracts from a text of at least nine bytes (its
  three assignments to \<open>version\<close>): what follows the first nine bytes, up to the first
  \<open>G\<close>, trimmed.\<close>

definition discovered :: "lib \<Rightarrow> string \<Rightarrow> string" where
  "discovered L text = TrimSpace L (hd (Split (drop 9 text) CHR ''G''))"

text \<open>The annotation in the words of the specification: the known version when the
  discovered one matches it case-insensitively, and otherwise
  \<open><original> (!new:<discovered>)\<close>.\<close>

definition annotation :: "lib \<Rightarrow> string \<Rightarrow> string \<Rightarrow> string" where
  "annotation L original v =
     (if EqualFold L original v then original else original @ '' (!new:'' @ v @ '')'')"

text \<open>The callback on \<open>span[data-test-id="UnitHeader-licenses"]\<close>.\<close>

definition on_licenses :: "lib \<Rightarrow> string \<Rightarrow> Repository \<Rightarrow> Repository" where
  "on_licenses L license r = r\<lparr>Shortname := Sprintf L (getLicenseColor L license) license\<rparr>"

text \<open>The callback on \<open>.UnitMeta-repo\<close>.\<close>

definition on_repo :: "string \<Rightarrow> Repository \<Rightarrow> Repository" where
  "on_repo repo r = r\<lparr>Project := repo\<rparr>"

text \<open>The collector runs the callbacks in the order of their registration, each on all
  the elements its selector matches.\<close>

fun each_version :: "lib \<Rightarrow> string list \<Rightarrow> Repository \<Rightarrow> Repository outcome" where
  "each_version L [] r = Return r"
| "each_version L (t # ts) r =
     (case on_version L t r of Panic \<Rightarrow> Panic | Return r' \<Rightarrow> each_version L ts r')"

definition scrape :: "lib \<Rightarrow> page \<Rightarrow> Repository \<Rightarrow> Repository outcome" where
  "scrape L pg r =
     (case each_version L (UnitHeader_version pg) r of
        Panic \<Rightarrow> Panic
      | Return r1 \<Rightarrow>
          Return (fold on_repo (UnitMeta_repo pg)
                    (fold (on_licenses L) (UnitHeader_licenses pg) r1)))"

text \<open>\<open>GetLicense\<close>: the events of the call, the error returned and the repository as
  the call leaves it.\<close>

definition GetLicense ::
  "lib \<Rightarrow> world \<Rightarrow> gitClient \<Rightarrow> Repository
     \<Rightarrow> (event list \<times> error option \<times> Repository) outcome" where
  "GetLicense L W gc r =
     (if Host r = ''github.com'' then
        (case Repositories_License W (Author r) (Project r) of
           Inl err \<Rightarrow> Return ([Call_License (Author r) (Project r)], Some err, r)
         | Inr rl \<Rightarrow>
             (case Key rl of
                None \<Rightarrow> Panic
              | Some key \<Rightarrow>
                  (let (name', clr) =
                         (case licenseCol key of
                            None \<Rightarrow> ([], Reset)
                          | Some f \<Rightarrow> (name f, color f));
                       (name', clr) = (if name' = [] then (key, FgYellow) else (name', clr));
                       r' = r\<lparr>Shortname := Sprintf L clr name', License := name',
                              Text := Content rl\<rparr>
                   in Return
                        (Call_License (Author r) (Project r)
                           # (if star gc \<and> logged gc
                              then [Call_Star (Author r') (Project r')] else []),
                         None, r'))))
      else if Host r = ''pkg.go.dev'' then
        (case Visit W (URL r) of
           Inl err \<Rightarrow> Return ([Call_Visit (URL r), Println_error (URL r) err], None, r)
         | Inr pg \<Rightarrow>
             (case scrape L pg r of
                Panic \<Rightarrow> Panic
              | Return r' \<Rightarrow> Return ([Call_Visit (URL r)], None, r')))
      else Return ([], None, r))"

section \<open>Enrichment orchestration\<close>

text \<open>\<open>type Client struct\<close>; \<open>dependencies\<close> holds pointers. The field \<open>output\<close> is named
  \<open>output'\<close> (\<open>output\<close> is reserved).\<close>

record Client =
  dependencies :: "nat list"
  path :: string
  format :: string
  output' :: string

text \<open>
  \<open>ParseDependencies\<close> starts one goroutine per repository. The interleaving is chosen
  by the scheduler, so the model is a step function driven by a schedule of actions:
  \<^item> \<open>Dispatch\<close>: one iteration of the \<open>for\<close> loop: log the URL, \<open>wg.Add(1)\<close>, send on
    \<open>sem\<close> (possible only while the channel holds fewer elements than its capacity)
    and start the goroutine on \<open>repos[next]\<close>;
  \<^item> \<open>Start i\<close>: goroutine \<open>i\<close> enters \<open>GetLicense\<close>;
  \<^item> \<open>Finish i\<close>: its \<open>GetLicense\<close> returns (the error, if any, is logged) or panics,
    which ends the process;
  \<^item> \<open>Release i\<close>: the deferred \<open><-sem\<close>;
  \<^item> \<open>WgDone i\<close>: the deferred \<open>wg.Done()\<close>.

  The effect of one \<open>GetLicense\<close> call on its repository is applied in one step, and an
  iteration of the loop is one step, taken when its send can proceed.
\<close>

datatype phase = Waiting | Spawned | Running | Returned | Released | Done

datatype action = Dispatch | Start nat | Finish nat | Release nat | WgDone nat

record run_state =
  objects :: "Repository list"
  next_index :: nat
  sem :: nat
  wg :: nat
  phases :: "phase list"
  trace :: "event list"
  crashed :: bool

text \<open>\<open>sem := make(chan struct{}, 5)\<close>\<close>

definition sem_capacity :: nat where
  "sem_capacity = 5"

definition init_run :: "Repository list \<Rightarrow> event list \<Rightarrow> nat \<Rightarrow> run_state" where
  "init_run h tr n =
     \<lparr>objects = h, next_index = 0, sem = 0, wg = 0, phases = replicate n Waiting,
      trace = tr, crashed = False\<rparr>"

definition step ::
  "lib \<Rightarrow> world \<Rightarrow> gitClient \<Rightarrow> nat list \<Rightarrow> action \<Rightarrow> run_state \<Rightarrow> run_state option" where
  "step L W gitCl repos act st =
     (if crashed st then None
      else case act of
        Dispatch \<Rightarrow>
          (let i = next_index st in
           if i < length repos \<and> sem st < sem_capacity then
             Some (st\<lparr>trace := trace st @ [Log_Fetching (URL (objects st ! (repos ! i)))],
                      wg := wg st + 1, sem := sem st + 1,
                      phases := (phases st)[i := Spawned], next_index := i + 1\<rparr>)
           else None)
      | Start i \<Rightarrow>
          (if i < length repos \<and> phases st ! i = Spawned
           then Some (st\<lparr>phases := (phases st)[i := Running]\<rparr>) else None)
      | Finish i \<Rightarrow>
          (if i < length repos \<and> phases st ! i = Running then
             (case GetLicense L W gitCl (objects st ! (repos ! i)) of
                Panic \<Rightarrow> Some (st\<lparr>crashed := True\<rparr>)
              | Return (evs, err1, r') \<Rightarrow>
                  Some (st\<lparr>objects := (objects st)[repos ! i := r'],
                           trace := trace st @ evs
                             @ (case err1 of None \<Rightarrow> [] | Some e \<Rightarrow> [Log_Error e]),
                           phases := (phases st)[i := Returned]\<rparr>))
           else None)
      | Release i \<Rightarrow>
          (if i < length repos \<and> phases st ! i = Returned
           then Some (st\<lparr>sem := sem st - 1, phases := (phases st)[i := Released]\<rparr>)
           else None)
      | WgDone i \<Rightarrow>
          (if i < length repos \<and> phases st ! i = Released
           then Some (st\<lparr>wg := wg st - 1, phases := (phases st)[i := Done]\<rparr>)
           else None))"

fun run ::
  "lib \<Rightarrow> world \<Rightarrow> gitClient \<Rightarrow> nat list \<Rightarrow> action list \<Rightarrow> run_state
     \<Rightarrow> run_state option" where
  "run L W gitCl repos [] st = Some st"
| "run L W gitCl repos (act # acts) st =
     (case step L W gitCl repos act st of
        None \<Rightarrow> None
      | Some st' \<Rightarrow> run L W gitCl repos acts st')"

text \<open>The number of \<open>GetLicense\<close> calls in flight.\<close>

definition in_flight :: "run_state \<Rightarrow> nat" where
  "in_flight st = length (filter (\<lambda>p. p = Running) (phases st))"

text \<open>The loop is over and \<open>wg.Wait()\<close> lets the caller through.\<close>

definition joined :: "nat list \<Rightarrow> run_state \<Rightarrow> bool" where
  "joined repos st \<longleftrightarrow> next_index st = length repos \<and> wg st = 0"

text \<open>The goroutines of \<open>ParseDependencies\<close> (from \<open>newGitClient\<close> to \<open>wg.Wait()\<close>)
  under a schedule: the last state when the schedule is a complete execution (every action
  enabled, and at the end either a panic or the loop over and the wait group at zero),
  \<open>None\<close> otherwise.\<close>

definition enrich ::
  "lib \<Rightarrow> world \<Rightarrow> string \<Rightarrow> bool \<Rightarrow> action list \<Rightarrow> Repository list \<Rightarrow> event list
     \<Rightarrow> nat list \<Rightarrow> run_state option" where
  "enrich L W githubAPIKey thanks sched h tr repos =
     (let gitCl = newGitClient [''github.com'' \<mapsto> githubAPIKey] thanks in
      case run L W gitCl repos sched (init_run h tr (length repos)) of
        None \<Rightarrow> None
      | Some st \<Rightarrow> if crashed st \<or> joined repos st then Some st else None)"

text \<open>\<open>ParseDependencies\<close> under a schedule: \<open>None\<close> when the schedule is not a complete
  execution; otherwise the outcome of the call, the memory, the client and the events.\<close>

definition ParseDependencies ::
  "lib \<Rightarrow> world \<Rightarrow> action list \<Rightarrow> memory \<Rightarrow> Client \<Rightarrow> bool \<Rightarrow> bool
     \<Rightarrow> (error option outcome \<times> memory \<times> Client \<times> event list) option" where
  "ParseDependencies L W sched s c includeIndirect thanks =
     (let githubAPIKey = Getenv W ''GITHUB_API_KEY'' in
      if thanks \<and> githubAPIKey = [] then Some (Return (Some ErrNoAPIKey), s, c, [])
      else
        (case ListRepositories L W s (path c) includeIndirect of
           (evs, Inl err, s1) \<Rightarrow> Some (Return (Some err), s1, c, evs)
         | (evs, Inr repos, s1) \<Rightarrow>
             (case enrich L W githubAPIKey thanks sched (heap s1)
                     (evs @ [Log_Found (length repos)]) repos of
                None \<Rightarrow> None
              | Some st \<Rightarrow>
                  if crashed st then Some (Panic, s1\<lparr>heap := objects st\<rparr>, c, trace st)
                  else Some (Return None, s1\<lparr>heap := objects st\<rparr>,
                             c\<lparr>dependencies := repos\<rparr>, trace st))))"

subsection \<open>Invariants of a run\<close>

text \<open>The objects that a cache points to: allocated, and as resolution made them but for
  the fields that enrichment writes.\<close>

definition heap_ok :: "(string \<rightharpoonup> nat) \<Rightarrow> Repository list \<Rightarrow> bool" where
  "heap_ok c objs \<longleftrightarrow> (\<forall>k a. c k = Some a \<longrightarrow> a < length objs \<and> cached_for k (objs ! a))"

text \<open>A goroutine holds an element of \<open>sem\<close> from its dispatch to its \<open>Release\<close>, and
  counts in the wait group from its dispatch to its \<open>WgDone\<close>.\<close>

definition holds_token :: "phase \<Rightarrow> bool" where
  "holds_token p \<longleftrightarrow> p = Spawned \<or> p = Running \<or> p = Returned"

definition alive :: "phase \<Rightarrow> bool" where
  "alive p \<longleftrightarrow> p = Spawned \<or> p = Running \<or> p = Returned \<or> p = Released"

definition inv_count :: "nat list \<Rightarrow> run_state \<Rightarrow> bool" where
  "inv_count repos st \<longleftrightarrow>
     length (phases st) = length repos \<and> next_index st \<le> length repos
     \<and> (\<forall>j<length repos. (phases st ! j = Waiting) = (next_index st \<le> j))
     \<and> sem st = length (filter holds_token (phases st))
     \<and> wg st = length (filter alive (phases st))
     \<and> sem st \<le> sem_capacity"

text \<open>Two repositories for which \<open>GetLicense\<close> makes the same request: the same host
  and URL, and on the known host the same author and project.\<close>

definition same_call :: "Repository \<Rightarrow> Repository \<Rightarrow> bool" where
  "same_call r r' \<longleftrightarrow>
     Host r' = Host r \<and> URL r' = URL r \<and> Author r' = Author r
     \<and> (Host r = ''github.com'' \<longrightarrow> Project r' = Project r)"

text \<open>Before its \<open>GetLicense\<close> has returned, a repository whose pointer is in the list
  once is as it was at the start; afterwards it is as that call left it, and the error
  of the call is in the log. Every object stays one for which \<open>GetLicense\<close> makes the
  request it made at the start, and a crash comes from a call that panics.\<close>

definition pending :: "phase \<Rightarrow> bool" where
  "pending p \<longleftrightarrow> p = Waiting \<or> p = Spawned \<or> p = Running"

definition enriched ::
  "lib \<Rightarrow> world \<Rightarrow> gitClient \<Rightarrow> Repository \<Rightarrow> Repository \<Rightarrow> event list \<Rightarrow> bool" where
  "enriched L W gitCl r0 r tr \<longleftrightarrow>
     (\<exists>evs e. GetLicense L W gitCl r0 = Return (evs, e, r)
        \<and> (case e of None \<Rightarrow> True | Some err \<Rightarrow> Log_Error err \<in> set tr))"

definition inv_objects ::
  "lib \<Rightarrow> world \<Rightarrow> gitClient \<Rightarrow> Repository list \<Rightarrow> nat list \<Rightarrow> run_state \<Rightarrow> bool" where
  "inv_objects L W gitCl h repos st \<longleftrightarrow>
     length (objects st) = length h
     \<and> (\<forall>a<length h. same_call (h ! a) (objects st ! a))
     \<and> (crashed st \<longrightarrow> (\<exists>j<length repos. GetLicense L W gitCl (h ! (repos ! j)) = Panic))
     \<and> (\<forall>j<length repos. count_list repos (repos ! j) = 1 \<longrightarrow>
          (if pending (phases st ! j)
           then objects st ! (repos ! j) = h ! (repos ! j)
           else enriched L W gitCl (h ! (repos ! j)) (objects st ! (repos ! j)) (trace st)))"

text \<open>A repository whose call fails with \<open>err\<close> and writes nothing stays as it was, and
  once its goroutine is past the call, \<open>err\<close> is in the log.\<close>

definition inv_failed :: "Repository list \<Rightarrow> nat list \<Rightarrow> nat \<Rightarrow> error \<Rightarrow> run_state \<Rightarrow> bool" where
  "inv_failed h repos i err st \<longleftrightarrow>
     objects st ! (repos ! i) = h ! (repos ! i)
     \<and> (pending (phases st ! i) \<or> Log_Error err \<in> set (trace st))"

text \<open>The number of steps that the goroutines have left.\<close>

fun weight :: "phase \<Rightarrow> nat" where
  "weight Waiting = 5"
| "weight Spawned = 4"
| "weight Running = 3"
| "weight Returned = 2"
| "weight Released = 1"
| "weight Done = 0"

definition remaining :: "run_state \<Rightarrow> nat" where
  "remaining st = sum_list (map weight (phases st))"

section \<open>Rendering\<close>

definition headerRow :: "string list" where
  "headerRow = [''Dependency'', ''RepoURL'', ''License'', ''Version'']"

text \<open>The writer a report goes to: the result of the \<open>k\<close>-th \<open>csvW.Write\<close>, of
  \<open>csvW.Error()\<close> and of the JSON encoder's \<open>Encode\<close>.\<close>

record sink =
  Write_result :: "nat \<Rightarrow> error option"
  Error_result :: "error option"
  Encode_result :: "error option"

text \<open>What was handed to the writer: the table's header and rows, the records given to
  the JSON encoder, or the CSV records written.\<close>

datatype rendering =
  Table "string list" "string list list"
  | Json "Repository list"
  | Csv "string list list"

text \<open>The CSV loop: write the records in order; stop at the first write error.\<close>

fun write_rows ::
  "sink \<Rightarrow> nat \<Rightarrow> string list list \<Rightarrow> string list list
     \<Rightarrow> error option \<times> string list list" where
  "write_rows K k [] written = (Error_result K, written)"
| "write_rows K k (row # rows) written =
     (case Write_result K k of
        Some err \<Rightarrow> (Some err, written)
      | None \<Rightarrow> write_rows K (Suc k) rows (written @ [row]))"

text \<open>\<open>Client.Print\<close>: the error returned and what was rendered.\<close>

definition Print ::
  "lib \<Rightarrow> sink \<Rightarrow> Repository list \<Rightarrow> Client \<Rightarrow> error option \<times> rendering option" where
  "Print L K h c =
     (if length (dependencies c) < 1 then (None, None)
      else if format c = ''table'' then
        (Some (Err (''invalid output provided ('' @ output' c
                     @ '') - allowed ones are [stdout, json, csv]'')),
         Some (Table headerRow
           (map (\<lambda>a. let d = h ! a
                      in [Name d, Sprintf L FgBlue (URL d), Shortname d, Version d])
              (dependencies c))))
      else if format c = ''json'' then
        (Encode_result K, Some (Json (map (\<lambda>a. h ! a) (dependencies c))))
      else if format c = ''csv'' then
        (case Write_result K 0 of
           Some err \<Rightarrow> (Some err, Some (Csv []))
         | None \<Rightarrow>
             (let (err, written) =
                    write_rows K 1
                      (map (\<lambda>a. let d = h ! a in [Project d, URL d, License d])
                         (dependencies c))
                      [headerRow]
              in (err, Some (Csv written))))
      else
        (Some (Err (''invalid output provided ('' @ output' c
                     @ '') - allowed ones are [stdout, json, csv]'')),
         None))"

section \<open>A concrete environment\<close>

text \<open>An instance of the library parameters for ASCII strings with colours switched off,
  and a small world, for the examples below.\<close>

definition ascii_space :: "char \<Rightarrow> bool" where
  "ascii_space c \<longleftrightarrow> c \<in> {CHR '' '', CHR 0x09, CHR 0x0A, CHR 0x0B, CHR 0x0C, CHR 0x0D}"

definition ascii_lower :: "char \<Rightarrow> char" where
  "ascii_lower c =
     (case map_of (zip ''ABCDEFGHIJKLMNOPQRSTUVWXYZ'' ''abcdefghijklmnopqrstuvwxyz'') c of
        None \<Rightarrow> c | Some l \<Rightarrow> l)"

definition ascii_lib :: "(string \<Rightarrow> string \<Rightarrow> error + require list) \<Rightarrow> lib" where
  "ascii_lib parse =
     \<lparr>TrimSpace = (\<lambda>s. rev (dropWhile ascii_space (rev (dropWhile ascii_space s)))),
      EqualFold = (\<lambda>a b. map ascii_lower a = map ascii_lower b),
      ToLower = map ascii_lower,
      Sprintf = (\<lambda>clr fmt. fmt),
      Join = (\<lambda>ps. foldr (\<lambda>p acc. if acc = [] then p else p @ ''/'' @ acc) ps []),
      modfile_Parse = parse\<rparr>"

text \<open>A manifest with two direct requirements and an indirect one.\<close>

definition example_requires :: "require list" where
  "example_requires =
     [\<lparr>Mod = \<lparr>Path = ''example.com/a'', mod_Version = ''v1.0.0''\<rparr>, Indirect = False\<rparr>,
      \<lparr>Mod = \<lparr>Path = ''example.com/b'', mod_Version = ''v0.3.0''\<rparr>, Indirect = True\<rparr>,
      \<lparr>Mod = \<lparr>Path = ''github.com/pkg/errors'', mod_Version = ''v0.9.1''\<rparr>,
       Indirect = False\<rparr>]"

definition example_lib :: lib where
  "example_lib = ascii_lib (\<lambda>file bts. Inr example_requires)"

text \<open>A world without an API key, in which the page of example.com/a shows version
  v1.2.0, the license MIT and the repository github.com/example/a, the page of
  github.com/pkg/errors cannot be fetched, and the license-lookup API fails.\<close>

definition example_world :: world where
  "example_world =
     \<lparr>environ = Map.empty,
      ReadFile = (\<lambda>file. Inr ''module example.com/m''),
      Repositories_License = (\<lambda>author project. Inl (Err ''404 Not Found'')),
      Visit = (\<lambda>url.
        if url = ''https://pkg.go.dev/example.com/a''
        then Inr \<lparr>UnitHeader_version = [''Version: v1.2.0''],
                  UnitHeader_licenses = [''MIT''],
                  UnitMeta_repo = [''github.com/example/a'']\<rparr>
        else if url = ''https://pkg.go.dev/example.com/short''
        then Inr \<lparr>UnitHeader_version = [''v1.2.0''],
                  UnitHeader_licenses = [''MIT''],
                  UnitMeta_repo = []\<rparr>
        else Inl (Err ''Not Found''))\<rparr>"

text \<open>An interleaved schedule of two goroutines.\<close>

definition example_schedule :: "action list" where
  "example_schedule =
     [Dispatch, Dispatch, Start 1, Start 0, Finish 1, Finish 0,
      Release 0, Release 1, WgDone 1, WgDone 0]"

text \<open>Six repositories, and a schedule that dispatches five of them and lets the five
  goroutines enter \<open>GetLicense\<close>.\<close>

definition six_repos :: "nat list" where
  "six_repos = [0, 1, 2, 3, 4, 5]"

definition six_heap :: "Repository list" where
  "six_heap = map (\<lambda>a. Repository_zero\<lparr>Host := ''pkg.go.dev''\<rparr>) six_repos"

definition five_running :: "action list" where
  "five_running =
     [Dispatch, Dispatch, Dispatch, Dispatch, Dispatch,
      Start 0, Start 1, Start 2, Start 3, Start 4]"

definition example_client :: Client where
  "example_client = \<lparr>dependencies = [], path = ''.'', format = ''csv'', output' = ''stdout''\<rparr>"

text \<open>A writer that accepts everything.\<close>

definition example_sink :: sink where
  "example_sink = \<lparr>Write_result = (\<lambda>k. None), Error_result = None, Encode_result = None\<rparr>"

text \<open>The state that \<open>five_running\<close> leads to.\<close>

definition five_state :: run_state where
  "five_state =
     \<lparr>objects = six_heap, next_index = 5, sem = 5, wg = 5,
      phases = [Running, Running, Running, Running, Running, Waiting],
      trace = [Log_Fetching [], Log_Fetching [], Log_Fetching [], Log_Fetching [],
               Log_Fetching []],
      crashed = False\<rparr>"

text \<open>A memory in which github.com/pkg/errors is cached as a repository on the known
  host, and the list and memory that resolving the two direct requirements of the
  manifest gives from it.\<close>

definition known_memory :: memory where
  "known_memory =
     \<lparr>cache = [''github.com/pkg/errors'' \<mapsto> 0],
      heap = [\<lparr>Name = ''github.com/pkg/errors'', Shortname = [],
               URL = ''https://github.com/pkg/errors'', Host = ''github.com'',
               Author = ''pkg'', Project = ''errors'', Text = [], License = [],
               Version = ''v0.9.1''\<rparr>]\<rparr>"

definition known_listed :: "event list \<times> (error + nat list) \<times> memory" where
  "known_listed =
     ([Read_File ''./go.mod''], Inr [1, 0],
      known_memory\<lparr>cache := (cache known_memory)(''example.com/a'' \<mapsto> 1),
        heap := heap known_memory
          @ [\<lparr>Name = ''example.com/a'', Shortname = [],
               URL = ''https://pkg.go.dev/example.com/a'', Host = ''pkg.go.dev'',
               Author = [], Project = [], Text = [], License = [],
               Version = ''v1.0.0''\<rparr>]\<rparr>)"

section \<open>Properties of resolution\<close>

lemma Split_not_Nil: "Split s c \<noteq> []"
  by (induction s) (auto split: list.splits)

lemma getOtherRepo_miss:
  assumes "cache s (Path m) = None"
  shows "getOtherRepo s m =
     (length (heap s),
      s\<lparr>cache := (cache s)(Path m \<mapsto> length (heap s)),
       heap := heap s @ [\<lparr>Name = Path m, Shortname = [], URL = ''https://pkg.go.dev/'' @ Path m,
          Host = ''pkg.go.dev'', Author = [], Project = [], Text = [], License = [],
          Version = mod_Version m\<rparr>]\<rparr>)"
  using assms by (simp add: getOtherRepo_def new_Repository_def Repository_zero_def Let_def)

lemma getOtherRepo_hit:
  assumes "cache s (Path m) = Some a"
  shows "getOtherRepo s m = (a, s)"
  using assms by (simp add: getOtherRepo_def)

lemma getOtherRepo_cache_ok:
  assumes "cache_ok s" and "getOtherRepo s m = (a, s')"
  shows "cache_ok s'"
proof (cases "cache s (Path m)")
  case None
  with assms(2) have s': "s' = s\<lparr>cache := (cache s)(Path m \<mapsto> length (heap s)),
       heap := heap s @ [\<lparr>Name = Path m, Shortname = [], URL = ''https://pkg.go.dev/'' @ Path m,
          Host = ''pkg.go.dev'', Author = [], Project = [], Text = [], License = [],
          Version = mod_Version m\<rparr>]\<rparr>"
    by (auto simp: getOtherRepo_miss)
  show ?thesis
    unfolding cache_ok_def
  proof (intro allI impI)
    fix k b
    assume kb: "cache s' k = Some b"
    show "b < length (heap s') \<and> cached_for k (heap s' ! b)"
    proof (cases "k = Path m")
      case True
      with kb s' have "b = length (heap s)" by simp
      with True s' show ?thesis by (simp add: cached_for_def)
    next
      case False
      with kb s' have "cache s k = Some b" by simp
      with assms(1) have "b < length (heap s) \<and> cached_for k (heap s ! b)"
        unfolding cache_ok_def by blast
      with s' show ?thesis by (simp add: nth_append)
    qed
  qed
next
  case (Some b)
  with assms show ?thesis by (simp add: getOtherRepo_hit)
qed

lemma cache_ok_init: "cache_ok init_memory"
  by (simp add: cache_ok_def init_memory_def)

lemma getOtherRepo_cache_mono:
  assumes "getOtherRepo s m = (a, s')" and "cache s k = Some b"
  shows "cache s' k = Some b"
proof (cases "cache s (Path m)")
  case None
  with assms(2) have "k \<noteq> Path m" by auto
  with assms None show ?thesis by (auto simp: getOtherRepo_miss)
next
  case (Some c)
  with assms show ?thesis by (simp add: getOtherRepo_hit)
qed

lemma getOtherRepo_cached:
  assumes "getOtherRepo s m = (a, s')"
  shows "cache s' (Path m) = Some a"
proof (cases "cache s (Path m)")
  case None
  with assms show ?thesis by (auto simp: getOtherRepo_miss)
next
  case (Some c)
  with assms show ?thesis by (simp add: getOtherRepo_hit)
qed

lemma resolve_all_cache_mono:
  assumes "resolve_all s ms = (rs, s')" and "cache s k = Some b"
  shows "cache s' k = Some b"
  using assms
proof (induction ms arbitrary: s rs s')
  case Nil
  then show ?case by simp
next
  case (Cons m ms)
  obtain a s1 where g: "getRepository s m = (a, s1)" by (cases "getRepository s m")
  obtain as1 s2 where r: "resolve_all s1 ms = (as1, s2)" by (cases "resolve_all s1 ms")
  from Cons.prems(1) g r have s': "s' = s2" by simp
  from g Cons.prems(2) have "cache s1 k = Some b"
    by (auto simp: getRepository_def dest: getOtherRepo_cache_mono)
  with Cons.IH [OF r] s' show ?case by simp
qed

lemma resolve_all_cache_ok:
  assumes "cache_ok s" and "resolve_all s ms = (rs, s')"
  shows "cache_ok s'"
  using assms
proof (induction ms arbitrary: s rs s')
  case Nil
  then show ?case by simp
next
  case (Cons m ms)
  obtain a s1 where g: "getRepository s m = (a, s1)" by (cases "getRepository s m")
  obtain as1 s2 where r: "resolve_all s1 ms = (as1, s2)" by (cases "resolve_all s1 ms")
  from Cons.prems(2) g r have s': "s' = s2" by simp
  from g Cons.prems(1) have "cache_ok s1"
    by (auto simp: getRepository_def dest: getOtherRepo_cache_ok)
  with Cons.IH [OF _ r] s' show ?case by simp
qed

text \<open>Resolution returns allocated pointers and never frees.\<close>

lemma getOtherRepo_allocated:
  assumes "allocated s" and "getOtherRepo s m = (a, s')"
  shows "allocated s' \<and> a < length (heap s') \<and> length (heap s) \<le> length (heap s')"
proof (cases "cache s (Path m)")
  case None
  with assms(2) have s': "s' = s\<lparr>cache := (cache s)(Path m \<mapsto> length (heap s)),
       heap := heap s @ [\<lparr>Name = Path m, Shortname = [], URL = ''https://pkg.go.dev/'' @ Path m,
          Host = ''pkg.go.dev'', Author = [], Project = [], Text = [], License = [],
          Version = mod_Version m\<rparr>]\<rparr>"
    and a: "a = length (heap s)"
    by (auto simp: getOtherRepo_miss)
  have "allocated s'"
    unfolding allocated_def
  proof (intro allI impI)
    fix k b assume kb: "cache s' k = Some b"
    show "b < length (heap s')"
    proof (cases "k = Path m")
      case True
      with kb s' show ?thesis by simp
    next
      case False
      with kb s' have "cache s k = Some b" by simp
      with assms(1) have "b < length (heap s)" unfolding allocated_def by blast
      with s' show ?thesis by simp
    qed
  qed
  with s' a show ?thesis by simp
next
  case (Some b)
  with assms have "a = b" and "s' = s" by (simp_all add: getOtherRepo_hit)
  with Some assms(1) show ?thesis unfolding allocated_def by blast
qed

lemma resolve_all_allocated:
  assumes "allocated s" and "resolve_all s ms = (rs, s')"
  shows "allocated s' \<and> (\<forall>a\<in>set rs. a < length (heap s'))
    \<and> length (heap s) \<le> length (heap s')"
  using assms
proof (induction ms arbitrary: s rs s')
  case Nil
  then show ?case by simp
next
  case (Cons m ms)
  obtain a s1 where g: "getRepository s m = (a, s1)" by (cases "getRepository s m")
  obtain as1 s2 where r: "resolve_all s1 ms = (as1, s2)" by (cases "resolve_all s1 ms")
  from Cons.prems(2) g r have res: "rs = a # as1" "s' = s2" by simp_all
  from g Cons.prems(1) have a1: "allocated s1" "a < length (heap s1)"
    "length (heap s) \<le> length (heap s1)"
    using getOtherRepo_allocated [of s m a s1] by (simp_all add: getRepository_def)
  from Cons.IH [OF a1(1) r] have a2: "allocated s2" "\<forall>a\<in>set as1. a < length (heap s2)"
    "length (heap s1) \<le> length (heap s2)"
    by simp_all
  from a1 a2 res show ?case by auto
qed


text \<open>What the statements after the first \<open>return\<close> of \<open>getRepository\<close> would compute.\<close>

lemma getRepository_rest_known_host:
  assumes "Split (Path m) CHR ''/'' = h # au # pr # rest"
    and "h \<in> {''github.com'', ''gitlab.com'', ''bitbucket.org''}"
    and "getRepository_rest s m = (a, s')"
  shows "heap s' ! a = \<lparr>Name = Path m, Shortname = [],
      URL = ''https://'' @ h @ ''/'' @ au @ ''/'' @ pr, Host = h, Author = au, Project = pr,
      Text = [], License = [], Version = mod_Version m\<rparr>"
  using assms
  by (auto simp: getRepository_rest_def new_Repository_def Repository_zero_def Let_def)

lemma getRepository_rest_redirector:
  assumes "Split (Path m) CHR ''/'' = ''gopkg.in'' # au # pr # rest"
    and "getRepository_rest s m = (a, s')"
  shows "heap s' ! a = \<lparr>Name = Path m, Shortname = [],
      URL = ''https://github.com/'' @ au @ ''/'' @ hd (Split pr CHR ''.''),
      Host = ''github.com'', Author = au, Project = hd (Split pr CHR ''.''),
      Text = [], License = [], Version = mod_Version m\<rparr>"
  using assms
  by (auto simp: getRepository_rest_def new_Repository_def Repository_zero_def Let_def)

lemma getRepository_rest_short:
  assumes "hd (Split (Path m) CHR ''/'')
             \<in> {''github.com'', ''gitlab.com'', ''bitbucket.org'', ''gopkg.in''}"
    and "length (Split (Path m) CHR ''/'') < 3"
    and "getRepository_rest s m = (a, s')"
  shows "heap s' ! a = Repository_zero\<lparr>Name := Path m\<rparr>"
  using assms
  by (auto simp: getRepository_rest_def new_Repository_def Let_def)

subsection \<open>C1: known source-hosting domains\<close>

text \<open>
  C1 says that \<open>getRepository\<close> resolves a path under github.com, gitlab.com or
  bitbucket.org with at least three segments to \<open>Host\<close> = first segment, \<open>Author\<close> =
  second, \<open>Project\<close> = third and \<open>URL\<close> = https://host/author/project, and that
  github.com/pkg/errors at v0.9.1 gives host github.com, author pkg, project errors and
  URL https://github.com/pkg/errors. The code returns from \<open>getRepository\<close> before its
  \<open>switch\<close> is reached: the path github.com/pkg/errors resolves to the metadata host
  pkg.go.dev, with \<open>Author\<close> and \<open>Project\<close> empty. (\<open>getRepository_rest_known_host\<close>
  is what the statements after the \<open>return\<close> would have produced.)
\<close>

theorem getRepository_github_pkg_errors:
  "heap (snd (getRepository init_memory
            \<lparr>Path = ''github.com/pkg/errors'', mod_Version = ''v0.9.1''\<rparr>))
     ! fst (getRepository init_memory
            \<lparr>Path = ''github.com/pkg/errors'', mod_Version = ''v0.9.1''\<rparr>)
   = \<lparr>Name = ''github.com/pkg/errors'', Shortname = [],
      URL = ''https://pkg.go.dev/github.com/pkg/errors'', Host = ''pkg.go.dev'',
      Author = [], Project = [], Text = [], License = [], Version = ''v0.9.1''\<rparr>"
  by (simp add: getRepository_def getOtherRepo_miss init_memory_def)

subsection \<open>C2: the redirector domain\<close>

text \<open>What the statements after the first \<open>return\<close> would give for
  gopkg.in/src-d/go-git.v4: the repository github.com/src-d/go-git.\<close>

lemma getRepository_rest_go_git:
  "heap (snd (getRepository_rest init_memory
            \<lparr>Path = ''gopkg.in/src-d/go-git.v4'', mod_Version = ''v4.13.1''\<rparr>))
     ! fst (getRepository_rest init_memory
            \<lparr>Path = ''gopkg.in/src-d/go-git.v4'', mod_Version = ''v4.13.1''\<rparr>)
   = \<lparr>Name = ''gopkg.in/src-d/go-git.v4'', Shortname = [],
      URL = ''https://github.com/src-d/go-git'', Host = ''github.com'',
      Author = ''src-d'', Project = ''go-git'', Text = [], License = [],
      Version = ''v4.13.1''\<rparr>"
  by (simp add: getRepository_rest_def new_Repository_def Repository_zero_def init_memory_def
      Let_def)

text \<open>The example of C2, gopkg.in/yaml.v2 at v2.4.0, resolves to the metadata host as
  well.\<close>

lemma getRepository_gopkg_yaml:
  "heap (snd (getRepository init_memory
            \<lparr>Path = ''gopkg.in/yaml.v2'', mod_Version = ''v2.4.0''\<rparr>))
     ! fst (getRepository init_memory
            \<lparr>Path = ''gopkg.in/yaml.v2'', mod_Version = ''v2.4.0''\<rparr>)
   = \<lparr>Name = ''gopkg.in/yaml.v2'', Shortname = [],
      URL = ''https://pkg.go.dev/gopkg.in/yaml.v2'', Host = ''pkg.go.dev'',
      Author = [], Project = [], Text = [], License = [], Version = ''v2.4.0''\<rparr>"
  by (simp add: getRepository_def getOtherRepo_miss init_memory_def)

text \<open>
  C2 says that \<open>getRepository\<close> rewrites every gopkg.in path to github.com, with
  \<open>Author\<close> the second segment and \<open>Project\<close> the third segment without its dotted
  suffix. The \<open>switch\<close> of \<open>getRepository\<close> has this case, but the code returns before
  the \<open>switch\<close> is reached: the path gopkg.in/src-d/go-git.v4 resolves to the metadata
  host pkg.go.dev, with \<open>Author\<close> and \<open>Project\<close> empty, and not to the repository
  github.com/src-d/go-git (\<open>getRepository_rest_go_git\<close>).
\<close>

theorem getRepository_gopkg_go_git:
  "heap (snd (getRepository init_memory
            \<lparr>Path = ''gopkg.in/src-d/go-git.v4'', mod_Version = ''v4.13.1''\<rparr>))
     ! fst (getRepository init_memory
            \<lparr>Path = ''gopkg.in/src-d/go-git.v4'', mod_Version = ''v4.13.1''\<rparr>)
   = \<lparr>Name = ''gopkg.in/src-d/go-git.v4'', Shortname = [],
      URL = ''https://pkg.go.dev/gopkg.in/src-d/go-git.v4'', Host = ''pkg.go.dev'',
      Author = [], Project = [], Text = [], License = [], Version = ''v4.13.1''\<rparr>"
  by (simp add: getRepository_def getOtherRepo_miss init_memory_def)

subsection \<open>C3: the fallback resolution\<close>




subsection \<open>C4: memoization\<close>

text \<open>
  C4: once a module path has been resolved, resolving the same path again (whatever
  version the second requirement carries, and whatever other paths were resolved in
  between) returns the same pointer as the first resolution, and leaves the memory as it
  is: nothing is allocated, no rule is applied and no field is written.
\<close>

theorem getRepository_memoized:
  assumes "getRepository s m = (a, s1)"
    and "resolve_all s1 ms = (rs, s2)"
    and "Path m' = Path m"
  shows "getRepository s2 m' = (a, s2)"
proof -
  from assms(1) have "cache s1 (Path m) = Some a"
    by (simp add: getRepository_def getOtherRepo_cached)
  with assms(2) have "cache s2 (Path m) = Some a"
    by (rule resolve_all_cache_mono)
  with assms(3) show ?thesis
    by (simp add: getRepository_def getOtherRepo_hit)
qed

theorem getRepository_memoized_witness:
  "getRepository init_memory \<lparr>Path = ''example.com/a'', mod_Version = ''v1.0.0''\<rparr>
     = (0, \<lparr>cache = [''example.com/a'' \<mapsto> 0],
            heap = [\<lparr>Name = ''example.com/a'', Shortname = [],
                     URL = ''https://pkg.go.dev/example.com/a'', Host = ''pkg.go.dev'',
                     Author = [], Project = [], Text = [], License = [],
                     Version = ''v1.0.0''\<rparr>]\<rparr>)
   \<and> fst (getRepository
            (snd (resolve_all
                    (snd (getRepository init_memory
                            \<lparr>Path = ''example.com/a'', mod_Version = ''v1.0.0''\<rparr>))
                    [\<lparr>Path = ''example.com/b'', mod_Version = ''v0.3.0''\<rparr>]))
            \<lparr>Path = ''example.com/a'', mod_Version = ''v1.1.0''\<rparr>) = 0
   \<and> snd (getRepository
            (snd (resolve_all
                    (snd (getRepository init_memory
                            \<lparr>Path = ''example.com/a'', mod_Version = ''v1.0.0''\<rparr>))
                    [\<lparr>Path = ''example.com/b'', mod_Version = ''v0.3.0''\<rparr>]))
            \<lparr>Path = ''example.com/a'', mod_Version = ''v1.1.0''\<rparr>)
       = snd (resolve_all
                (snd (getRepository init_memory
                        \<lparr>Path = ''example.com/a'', mod_Version = ''v1.0.0''\<rparr>))
                [\<lparr>Path = ''example.com/b'', mod_Version = ''v0.3.0''\<rparr>])"
proof -
  have h1: "getRepository init_memory \<lparr>Path = ''example.com/a'', mod_Version = ''v1.0.0''\<rparr>
     = (0, \<lparr>cache = [''example.com/a'' \<mapsto> 0],
            heap = [\<lparr>Name = ''example.com/a'', Shortname = [],
                     URL = ''https://pkg.go.dev/example.com/a'', Host = ''pkg.go.dev'',
                     Author = [], Project = [], Text = [], License = [],
                     Version = ''v1.0.0''\<rparr>]\<rparr>)"
    by (simp add: getRepository_def getOtherRepo_miss init_memory_def)
  have h2: "resolve_all \<lparr>cache = [''example.com/a'' \<mapsto> 0],
            heap = [\<lparr>Name = ''example.com/a'', Shortname = [],
                     URL = ''https://pkg.go.dev/example.com/a'', Host = ''pkg.go.dev'',
                     Author = [], Project = [], Text = [], License = [],
                     Version = ''v1.0.0''\<rparr>]\<rparr>
            [\<lparr>Path = ''example.com/b'', mod_Version = ''v0.3.0''\<rparr>]
      = (fst (resolve_all \<lparr>cache = [''example.com/a'' \<mapsto> 0],
            heap = [\<lparr>Name = ''example.com/a'', Shortname = [],
                     URL = ''https://pkg.go.dev/example.com/a'', Host = ''pkg.go.dev'',
                     Author = [], Project = [], Text = [], License = [],
                     Version = ''v1.0.0''\<rparr>]\<rparr>
            [\<lparr>Path = ''example.com/b'', mod_Version = ''v0.3.0''\<rparr>]),
         snd (resolve_all \<lparr>cache = [''example.com/a'' \<mapsto> 0],
            heap = [\<lparr>Name = ''example.com/a'', Shortname = [],
                     URL = ''https://pkg.go.dev/example.com/a'', Host = ''pkg.go.dev'',
                     Author = [], Project = [], Text = [], License = [],
                     Version = ''v1.0.0''\<rparr>]\<rparr>
            [\<lparr>Path = ''example.com/b'', mod_Version = ''v0.3.0''\<rparr>]))"
    by simp
  have h3: "Path \<lparr>Path = ''example.com/a'', mod_Version = ''v1.1.0''\<rparr>
      = Path \<lparr>Path = ''example.com/a'', mod_Version = ''v1.0.0''\<rparr>"
    by simp
  from getRepository_memoized [OF h1 h2 h3] h1 show ?thesis
    by simp
qed

section \<open>Properties of license enrichment\<close>

lemma on_version_Return:
  assumes "on_version L t r = Return r'"
  shows "9 \<le> length t \<and> (\<exists>v. r' = r\<lparr>Version := v\<rparr> \<and> prefix (Version r) v)"
proof -
  from assms have len: "9 \<le> length t"
    by (auto simp: on_version_def split: if_splits)
  define v where "v = TrimSpace L (hd (Split (drop 9 t) CHR ''G''))"
  show ?thesis
  proof (cases "EqualFold L (Version r) v")
    case True
    with assms len have "r' = r\<lparr>Version := Version r\<rparr>"
      by (simp add: on_version_def v_def)
    moreover have "prefix (Version r) (Version r)" by simp
    ultimately have "\<exists>v. r' = r\<lparr>Version := v\<rparr> \<and> prefix (Version r) v"
      by (intro exI conjI)
    with len show ?thesis by simp
  next
    case False
    with assms len have "r' = r\<lparr>Version := Version r @ '' (!new:'' @ v @ '')''\<rparr>"
      by (simp add: on_version_def v_def)
    moreover have "prefix (Version r) (Version r @ '' (!new:'' @ v @ '')'')" by simp
    ultimately have "\<exists>v. r' = r\<lparr>Version := v\<rparr> \<and> prefix (Version r) v"
      by (intro exI conjI)
    with len show ?thesis by simp
  qed
qed

lemma on_version_Panic: "on_version L t r = Panic \<longleftrightarrow> length t < 9"
  by (simp add: on_version_def Let_def)

lemma each_version_Return:
  assumes "each_version L ts r = Return r'"
  shows "(\<forall>t\<in>set ts. 9 \<le> length t) \<and> (\<exists>v. r' = r\<lparr>Version := v\<rparr> \<and> prefix (Version r) v)"
  using assms
proof (induction ts arbitrary: r)
  case Nil
  then have "r' = r\<lparr>Version := Version r\<rparr>" by simp
  moreover have "prefix (Version r) (Version r)" by simp
  ultimately have "\<exists>v. r' = r\<lparr>Version := v\<rparr> \<and> prefix (Version r) v"
    by (intro exI conjI)
  then show ?case by simp
next
  case (Cons t ts)
  from Cons.prems obtain r1 where r1: "on_version L t r = Return r1"
    and rest: "each_version L ts r1 = Return r'"
    by (auto split: outcome.splits)
  from on_version_Return [OF r1] obtain v1 where a: "9 \<le> length t" "r1 = r\<lparr>Version := v1\<rparr>"
    "prefix (Version r) v1"
    by blast
  from Cons.IH [OF rest] obtain v where b: "\<forall>t\<in>set ts. 9 \<le> length t"
    "r' = r1\<lparr>Version := v\<rparr>" "prefix (Version r1) v"
    by blast
  from a(2) b(2) have "r' = r\<lparr>Version := v\<rparr>" by simp
  moreover from a(2,3) b(3) have "prefix (Version r) v" by auto
  ultimately show ?case using a(1) b(1) by auto
qed

lemma each_version_Panic:
  "each_version L ts r = Panic \<longleftrightarrow> (\<exists>t\<in>set ts. length t < 9)"
proof (induction ts arbitrary: r)
  case Nil
  then show ?case by simp
next
  case (Cons t ts)
  show ?case
  proof (cases "on_version L t r")
    case (Return r1)
    with on_version_Panic [of L t r] have "\<not> length t < 9" by simp
    with Return Cons.IH [of r1] show ?thesis by simp
  next
    case Panic
    with on_version_Panic [of L t r] show ?thesis by simp
  qed
qed

lemma fold_on_licenses: "\<exists>sn. fold (on_licenses L) ls r = r\<lparr>Shortname := sn\<rparr>"
proof (induction ls arbitrary: r)
  case Nil
  have "r = r\<lparr>Shortname := Shortname r\<rparr>" by simp
  then show ?case by (metis fold_simps(1))
next
  case (Cons l ls)
  obtain sn where "fold (on_licenses L) ls (on_licenses L l r) = (on_licenses L l r)\<lparr>Shortname := sn\<rparr>"
    using Cons.IH by blast
  moreover have "(on_licenses L l r)\<lparr>Shortname := sn\<rparr> = r\<lparr>Shortname := sn\<rparr>"
    by (simp add: on_licenses_def)
  ultimately have "fold (on_licenses L) (l # ls) r = r\<lparr>Shortname := sn\<rparr>"
    by (simp only: fold_simps)
  then show ?case by blast
qed

lemma fold_on_repo: "\<exists>pj. fold on_repo ps r = r\<lparr>Project := pj\<rparr>"
proof (induction ps arbitrary: r)
  case Nil
  have "r = r\<lparr>Project := Project r\<rparr>" by simp
  then show ?case by (metis fold_simps(1))
next
  case (Cons p ps)
  obtain pj where "fold on_repo ps (on_repo p r) = (on_repo p r)\<lparr>Project := pj\<rparr>"
    using Cons.IH by blast
  moreover have "(on_repo p r)\<lparr>Project := pj\<rparr> = r\<lparr>Project := pj\<rparr>"
    by (simp add: on_repo_def)
  ultimately have "fold on_repo (p # ps) r = r\<lparr>Project := pj\<rparr>"
    by (simp only: fold_simps)
  then show ?case by blast
qed

text \<open>The frame of a page scrape: only \<open>Shortname\<close>, \<open>Version\<close> and \<open>Project\<close> change,
  and the old \<open>Version\<close> stays as a prefix of the new one.\<close>

lemma scrape_Return:
  assumes "scrape L pg r = Return r'"
  shows "\<exists>sn pj v. r' = r\<lparr>Shortname := sn, Project := pj, Version := v\<rparr>
    \<and> prefix (Version r) v"
proof -
  from assms obtain r1 where r1: "each_version L (UnitHeader_version pg) r = Return r1"
    and r': "r' = fold on_repo (UnitMeta_repo pg)
                    (fold (on_licenses L) (UnitHeader_licenses pg) r1)"
    by (auto simp: scrape_def split: outcome.splits)
  from each_version_Return [OF r1] obtain v where a: "r1 = r\<lparr>Version := v\<rparr>"
    "prefix (Version r) v"
    by blast
  obtain sn where b: "fold (on_licenses L) (UnitHeader_licenses pg) r1 = r1\<lparr>Shortname := sn\<rparr>"
    using fold_on_licenses by blast
  obtain pj where c: "fold on_repo (UnitMeta_repo pg) (r1\<lparr>Shortname := sn\<rparr>)
      = r1\<lparr>Shortname := sn, Project := pj\<rparr>"
    using fold_on_repo by blast
  from r' a(1) b c have "r' = r\<lparr>Shortname := sn, Project := pj, Version := v\<rparr>"
    by simp
  with a(2) show ?thesis by blast
qed

lemma scrape_Panic:
  "scrape L pg r = Panic \<longleftrightarrow> (\<exists>t\<in>set (UnitHeader_version pg). length t < 9)"
proof (cases "each_version L (UnitHeader_version pg) r")
  case (Return r1)
  with each_version_Panic [of L "UnitHeader_version pg" r] show ?thesis
    by (simp add: scrape_def)
next
  case Panic
  with each_version_Panic [of L "UnitHeader_version pg" r] show ?thesis
    by (simp add: scrape_def)
qed

text \<open>What \<open>GetLicense\<close> does on the fallback path, by the result of the page fetch.\<close>

lemma GetLicense_fallback:
  assumes "Host r = ''pkg.go.dev''"
  shows "GetLicense L W gc r =
     (case Visit W (URL r) of
        Inl err \<Rightarrow> Return ([Call_Visit (URL r), Println_error (URL r) err], None, r)
      | Inr pg \<Rightarrow>
          (case scrape L pg r of
             Panic \<Rightarrow> Panic
           | Return r' \<Rightarrow> Return ([Call_Visit (URL r)], None, r')))"
  using assms by (simp add: GetLicense_def)

text \<open>On the fallback path \<open>GetLicense\<close> returns no error, and writes \<open>Shortname\<close>,
  \<open>Version\<close> and \<open>Project\<close> only.\<close>

lemma GetLicense_fallback_Return:
  assumes "Host r = ''pkg.go.dev''" and "GetLicense L W gc r = Return (evs, e, r')"
  shows "e = None
    \<and> (\<exists>sn pj v. r' = r\<lparr>Shortname := sn, Project := pj, Version := v\<rparr>
          \<and> prefix (Version r) v)"
proof (cases "Visit W (URL r)")
  case (Inl err)
  with assms have "e = None" and "r' = r"
    by (simp_all add: GetLicense_fallback)
  moreover have "r = r\<lparr>Shortname := Shortname r, Project := Project r, Version := Version r\<rparr>"
    by simp
  ultimately show ?thesis by (metis prefix_order.refl)
next
  case (Inr pg)
  with assms have "scrape L pg r = Return r'" and "e = None"
    by (auto simp: GetLicense_fallback split: outcome.splits)
  with scrape_Return [of L pg r r'] show ?thesis by simp
qed

lemma GetLicense_fallback_Panic:
  assumes "Host r = ''pkg.go.dev''"
  shows "GetLicense L W gc r = Panic \<longleftrightarrow>
    (\<exists>pg. Visit W (URL r) = Inr pg \<and> (\<exists>t\<in>set (UnitHeader_version pg). length t < 9))"
proof (cases "Visit W (URL r)")
  case (Inl err)
  with assms show ?thesis by (simp add: GetLicense_fallback)
next
  case (Inr pg)
  with assms have "GetLicense L W gc r = Panic \<longleftrightarrow> scrape L pg r = Panic"
    by (simp add: GetLicense_fallback split: outcome.splits)
  with Inr show ?thesis by (simp add: scrape_Panic)
qed

text \<open>The known-host path when the license-lookup API fails: the error is returned and
  the repository is not touched.\<close>

lemma GetLicense_api_failure:
  assumes "Host r = ''github.com''"
    and "Repositories_License W (Author r) (Project r) = Inl err"
  shows "GetLicense L W gc r = Return ([Call_License (Author r) (Project r)], Some err, r)"
  using assms by (simp add: GetLicense_def)

text \<open>The known-host path when the API answers: \<open>Shortname\<close>, \<open>License\<close> and \<open>Text\<close> are
  written, and nothing else.\<close>

lemma GetLicense_api_Return:
  assumes "Host r = ''github.com''" and "GetLicense L W gc r = Return (evs, e, r')"
  shows "\<exists>sn lc tx. r' = r\<lparr>Shortname := sn, License := lc, Text := tx\<rparr>"
proof (cases "Repositories_License W (Author r) (Project r)")
  case (Inl err)
  with assms have "r' = r" by (simp add: GetLicense_def)
  moreover have "r = r\<lparr>Shortname := Shortname r, License := License r, Text := Text r\<rparr>"
    by simp
  ultimately show ?thesis by metis
next
  case (Inr rl)
  show ?thesis
  proof (cases "Key rl")
    case None
    with Inr assms show ?thesis by (simp add: GetLicense_def)
  next
    case (Some key)
    with Inr assms show ?thesis
      by (auto simp: GetLicense_def Let_def split: prod.splits)
  qed
qed

text \<open>Whatever the host, \<open>GetLicense\<close> leaves \<open>Name\<close>, \<open>URL\<close>, \<open>Host\<close> and \<open>Author\<close> as
  they are.\<close>

lemma GetLicense_keeps:
  assumes "GetLicense L W gc r = Return (evs, e, r')"
  shows "Name r' = Name r \<and> URL r' = URL r \<and> Host r' = Host r \<and> Author r' = Author r"
proof -
  consider "Host r = ''pkg.go.dev''" | "Host r = ''github.com''"
    | "Host r \<noteq> ''pkg.go.dev''" "Host r \<noteq> ''github.com''"
    by blast
  then show ?thesis
  proof cases
    case 1
    from GetLicense_fallback_Return [OF 1 assms]
    obtain sn pj v where "r' = r\<lparr>Shortname := sn, Project := pj, Version := v\<rparr>"
      by blast
    then show ?thesis by simp
  next
    case 2
    from GetLicense_api_Return [OF 2 assms]
    obtain sn lc tx where "r' = r\<lparr>Shortname := sn, License := lc, Text := tx\<rparr>"
      by blast
    then show ?thesis by simp
  next
    case 3
    with assms have "r' = r" by (simp add: GetLicense_def)
    then show ?thesis by simp
  qed
qed

lemma GetLicense_cached_for:
  assumes "GetLicense L W gc r = Return (evs, e, r')" and "cached_for k r"
  shows "cached_for k r'"
  using GetLicense_keeps [OF assms(1)] assms(2) by (simp add: cached_for_def)

subsection \<open>C9: the version annotation\<close>

text \<open>One run of the version callback on a text of at least nine bytes writes the
  annotation of the known version with the discovered one.\<close>

lemma on_version_annotates:
  assumes "9 \<le> length t"
  shows "on_version L t r = Return (r\<lparr>Version := annotation L (Version r) (discovered L t)\<rparr>)"
proof (cases "EqualFold L (Version r) (discovered L t)")
  case True
  have "r = r\<lparr>Version := Version r\<rparr>" by simp
  with True assms show ?thesis
    by (simp add: on_version_def annotation_def discovered_def)
next
  case False
  with assms show ?thesis
    by (simp add: on_version_def annotation_def discovered_def)
qed

lemma each_version_annotates:
  assumes "\<forall>t\<in>set ts. 9 \<le> length t"
  shows "each_version L ts r = Return
     (r\<lparr>Version := foldl (\<lambda>v t. annotation L v (discovered L t)) (Version r) ts\<rparr>)"
  using assms
proof (induction ts arbitrary: r)
  case Nil
  have "r = r\<lparr>Version := Version r\<rparr>" by simp
  then show ?case by simp
next
  case (Cons t ts)
  define r1 where "r1 = r\<lparr>Version := annotation L (Version r) (discovered L t)\<rparr>"
  from Cons.prems have "on_version L t r = Return r1"
    by (simp add: on_version_annotates r1_def)
  moreover from Cons.prems have "each_version L ts r1 = Return
     (r1\<lparr>Version := foldl (\<lambda>v t. annotation L v (discovered L t)) (Version r1) ts\<rparr>)"
    by (intro Cons.IH) simp
  ultimately show ?case by (simp add: r1_def)
qed

text \<open>
  C9: on the fallback path (\<open>Host\<close> pkg.go.dev), when the page is fetched and the text
  of each of its version elements has the nine bytes that the code cuts off,
  \<open>GetLicense\<close> returns nil and \<open>Version\<close> is the known version annotated, in page
  order, with the version discovered in each element: for a discovered version that
  differs from the version known so far under \<open>EqualFold\<close>, \<open>Version\<close> becomes that
  version followed by \<open>" (!new:"\<close>, the discovered version and \<open>")"\<close>; for one that
  matches, \<open>Version\<close> is left unchanged. So with one version element \<open>t\<close> the result is
  exactly \<open><original> (!new:<discovered>)\<close> or the original. In every case the
  declared version stays as a prefix of the new \<open>Version\<close>: it is never overwritten.
\<close>

theorem GetLicense_version_annotation:
  assumes "Host r = ''pkg.go.dev''"
    and "Visit W (URL r) = Inr pg"
    and "\<forall>t\<in>set (UnitHeader_version pg). 9 \<le> length t"
  shows "\<exists>evs r'. GetLicense L W gc r = Return (evs, None, r')
    \<and> Version r' = foldl (\<lambda>v t. annotation L v (discovered L t)) (Version r)
                      (UnitHeader_version pg)
    \<and> (\<forall>t. UnitHeader_version pg = [t] \<longrightarrow>
          Version r' =
            (if EqualFold L (Version r) (discovered L t) then Version r
             else Version r @ '' (!new:'' @ discovered L t @ '')''))
    \<and> prefix (Version r) (Version r')"
proof -
  define r1 where "r1 = r\<lparr>Version := foldl (\<lambda>v t. annotation L v (discovered L t)) (Version r)
      (UnitHeader_version pg)\<rparr>"
  define r2 where "r2 = fold on_repo (UnitMeta_repo pg)
      (fold (on_licenses L) (UnitHeader_licenses pg) r1)"
  from assms(3) have "each_version L (UnitHeader_version pg) r = Return r1"
    by (simp add: each_version_annotates r1_def)
  then have "scrape L pg r = Return r2"
    by (simp add: scrape_def r2_def)
  with assms(1,2) have ret: "GetLicense L W gc r = Return ([Call_Visit (URL r)], None, r2)"
    by (simp add: GetLicense_fallback)
  obtain sn where "fold (on_licenses L) (UnitHeader_licenses pg) r1 = r1\<lparr>Shortname := sn\<rparr>"
    using fold_on_licenses by blast
  moreover obtain pj where "fold on_repo (UnitMeta_repo pg) (r1\<lparr>Shortname := sn\<rparr>)
      = r1\<lparr>Shortname := sn, Project := pj\<rparr>"
    using fold_on_repo by blast
  ultimately have "Version r2 = Version r1"
    by (simp add: r2_def)
  then have v: "Version r2 = foldl (\<lambda>v t. annotation L v (discovered L t)) (Version r)
      (UnitHeader_version pg)"
    by (simp add: r1_def)
  then have one: "\<forall>t. UnitHeader_version pg = [t] \<longrightarrow>
          Version r2 =
            (if EqualFold L (Version r) (discovered L t) then Version r
             else Version r @ '' (!new:'' @ discovered L t @ '')'')"
    by (simp add: annotation_def)
  from GetLicense_fallback_Return [OF assms(1) ret]
  obtain sn' pj' w where "r2 = r\<lparr>Shortname := sn', Project := pj', Version := w\<rparr>"
    and "prefix (Version r) w"
    by blast
  then have "prefix (Version r) (Version r2)" by simp
  with ret v one show ?thesis by blast
qed

theorem GetLicense_version_annotation_witness:
  "Visit example_world ''https://pkg.go.dev/example.com/a''
     = Inr \<lparr>UnitHeader_version = [''Version: v1.2.0''], UnitHeader_licenses = [''MIT''],
            UnitMeta_repo = [''github.com/example/a'']\<rparr>
   \<and> 9 \<le> length ''Version: v1.2.0''
   \<and> discovered example_lib ''Version: v1.2.0'' = ''v1.2.0''
   \<and> \<not> EqualFold example_lib ''v1.0.0'' ''v1.2.0''
   \<and> (\<exists>evs r'. GetLicense example_lib example_world \<lparr>logged = False, star = False\<rparr>
          \<lparr>Name = ''example.com/a'', Shortname = [], URL = ''https://pkg.go.dev/example.com/a'',
           Host = ''pkg.go.dev'', Author = [], Project = [], Text = [], License = [],
           Version = ''v1.0.0''\<rparr> = Return (evs, None, r')
        \<and> Version r' = ''v1.0.0 (!new:v1.2.0)'')"
proof -
  have h1: "Host \<lparr>Name = ''example.com/a'', Shortname = [],
      URL = ''https://pkg.go.dev/example.com/a'', Host = ''pkg.go.dev'', Author = [],
      Project = [], Text = [], License = [], Version = ''v1.0.0''\<rparr> = ''pkg.go.dev''"
    by simp
  have h2: "Visit example_world (URL \<lparr>Name = ''example.com/a'', Shortname = [],
      URL = ''https://pkg.go.dev/example.com/a'', Host = ''pkg.go.dev'', Author = [],
      Project = [], Text = [], License = [], Version = ''v1.0.0''\<rparr>)
     = Inr \<lparr>UnitHeader_version = [''Version: v1.2.0''], UnitHeader_licenses = [''MIT''],
            UnitMeta_repo = [''github.com/example/a'']\<rparr>"
    by (simp add: example_world_def)
  have h3: "\<forall>t\<in>set (UnitHeader_version \<lparr>UnitHeader_version = [''Version: v1.2.0''],
      UnitHeader_licenses = [''MIT''], UnitMeta_repo = [''github.com/example/a'']\<rparr>).
      9 \<le> length t"
    by simp
  have h4: "9 \<le> length ''Version: v1.2.0''"
    by simp
  have v: "discovered example_lib ''Version: v1.2.0'' = ''v1.2.0''"
    by (simp add: discovered_def example_lib_def ascii_lib_def ascii_space_def)
  have ne: "\<not> EqualFold example_lib ''v1.0.0'' ''v1.2.0''"
    by (simp add: example_lib_def ascii_lib_def ascii_lower_def)
  from GetLicense_version_annotation [OF h1 h2 h3, of example_lib
      "\<lparr>logged = False, star = False\<rparr>"]
  obtain evs r' where ret: "GetLicense example_lib example_world \<lparr>logged = False, star = False\<rparr>
          \<lparr>Name = ''example.com/a'', Shortname = [], URL = ''https://pkg.go.dev/example.com/a'',
           Host = ''pkg.go.dev'', Author = [], Project = [], Text = [], License = [],
           Version = ''v1.0.0''\<rparr> = Return (evs, None, r')"
    and "Version r' = annotation example_lib ''v1.0.0'' (discovered example_lib ''Version: v1.2.0'')"
    by auto
  with v ne have "Version r' = ''v1.0.0 (!new:v1.2.0)''" by (simp add: annotation_def)
  with ret h2 h4 v ne show ?thesis by auto
qed

subsection \<open>C10: the frame of the fallback path\<close>

text \<open>
  C10 says that for every repository on the fallback path \<open>GetLicense\<close> always returns
  nil and writes \<open>Shortname\<close>, \<open>Version\<close> and \<open>Project\<close> only. Whenever the call returns
  this is so (\<open>GetLicense_fallback_Return\<close>), but it does not always return: on a page
  whose version element has a text of fewer than nine bytes, the slice \<open>version[9:]\<close>
  panics (\<open>GetLicense_fallback_Panic\<close>). Here the page of example.com/short shows the
  version text v1.2.0.
\<close>

theorem GetLicense_fallback_short_version:
  "GetLicense example_lib example_world \<lparr>logged = False, star = False\<rparr>
     \<lparr>Name = ''example.com/short'', Shortname = [],
      URL = ''https://pkg.go.dev/example.com/short'', Host = ''pkg.go.dev'', Author = [],
      Project = [], Text = [], License = [], Version = ''v1.2.0''\<rparr> = Panic"
  by (simp add: GetLicense_def example_world_def scrape_def on_version_def)

section \<open>Properties of the orchestration\<close>

lemma length_filter_update:
  assumes "i < length ps"
  shows "length (filter P (ps[i := q])) + (if P (ps ! i) then 1 else 0)
    = length (filter P ps) + (if P q then 1 else 0)"
  using assms
proof (induction ps arbitrary: i)
  case Nil
  then show ?case by simp
next
  case (Cons p ps)
  show ?case
  proof (cases i)
    case 0
    then show ?thesis by simp
  next
    case (Suc k)
    with Cons.prems have "k < length ps" by simp
    from Cons.IH [OF this] Suc show ?thesis by simp
  qed
qed

lemma length_filter_mono:
  assumes "\<And>x. P x \<Longrightarrow> Q x"
  shows "length (filter P xs) \<le> length (filter Q xs)"
  using assms by (induction xs) auto

lemma length_filter_zero: "length (filter P xs) = 0 \<longleftrightarrow> (\<forall>x\<in>set xs. \<not> P x)"
  by (induction xs) auto

subsection \<open>The steps, one by one\<close>

lemma step_Dispatch:
  "step L W gitCl repos Dispatch st = Some st' \<longleftrightarrow>
     \<not> crashed st \<and> next_index st < length repos \<and> sem st < sem_capacity
     \<and> st' = st\<lparr>trace := trace st
                  @ [Log_Fetching (URL (objects st ! (repos ! next_index st)))],
               wg := wg st + 1, sem := sem st + 1,
               phases := (phases st)[next_index st := Spawned],
               next_index := next_index st + 1\<rparr>"
  by (auto simp: step_def Let_def)

lemma step_Start:
  "step L W gitCl repos (Start i) st = Some st' \<longleftrightarrow>
     \<not> crashed st \<and> i < length repos \<and> phases st ! i = Spawned
     \<and> st' = st\<lparr>phases := (phases st)[i := Running]\<rparr>"
  by (auto simp: step_def)

lemma step_Finish:
  "step L W gitCl repos (Finish i) st = Some st' \<longleftrightarrow>
     \<not> crashed st \<and> i < length repos \<and> phases st ! i = Running
     \<and> (case GetLicense L W gitCl (objects st ! (repos ! i)) of
           Panic \<Rightarrow> st' = st\<lparr>crashed := True\<rparr>
         | Return (evs, err1, r') \<Rightarrow>
             st' = st\<lparr>objects := (objects st)[repos ! i := r'],
                      trace := trace st @ evs
                        @ (case err1 of None \<Rightarrow> [] | Some e \<Rightarrow> [Log_Error e]),
                      phases := (phases st)[i := Returned]\<rparr>)"
  by (auto simp: step_def split: outcome.splits)

lemma step_Release:
  "step L W gitCl repos (Release i) st = Some st' \<longleftrightarrow>
     \<not> crashed st \<and> i < length repos \<and> phases st ! i = Returned
     \<and> st' = st\<lparr>sem := sem st - 1, phases := (phases st)[i := Released]\<rparr>"
  by (auto simp: step_def)

lemma step_WgDone:
  "step L W gitCl repos (WgDone i) st = Some st' \<longleftrightarrow>
     \<not> crashed st \<and> i < length repos \<and> phases st ! i = Released
     \<and> st' = st\<lparr>wg := wg st - 1, phases := (phases st)[i := Done]\<rparr>"
  by (auto simp: step_def)

subsection \<open>The counting invariant\<close>

lemma inv_count_init: "inv_count repos (init_run h tr (length repos))"
  by (simp add: inv_count_def init_run_def holds_token_def alive_def)

text \<open>A phase change of goroutine \<open>i\<close> that does not involve \<open>Waiting\<close>.\<close>

lemma inv_count_phase:
  assumes inv: "inv_count repos st" and i: "i < length repos"
    and p: "phases st ! i \<noteq> Waiting" and q: "q \<noteq> Waiting"
    and sem': "sem' + (if holds_token (phases st ! i) then 1 else 0)
        = sem st + (if holds_token q then 1 else 0)"
    and wg': "wg' + (if alive (phases st ! i) then 1 else 0)
        = wg st + (if alive q then 1 else 0)"
    and le: "sem' \<le> sem_capacity"
    and st': "phases st' = (phases st)[i := q]" "next_index st' = next_index st"
      "sem st' = sem'" "wg st' = wg'"
  shows "inv_count repos st'"
proof -
  from inv have len: "length (phases st) = length repos"
    and nx: "next_index st \<le> length repos"
    and wait: "\<forall>j<length repos. (phases st ! j = Waiting) = (next_index st \<le> j)"
    and s: "sem st = length (filter holds_token (phases st))"
    and w: "wg st = length (filter alive (phases st))"
    by (simp_all add: inv_count_def)
  from i len have il: "i < length (phases st)" by simp
  have "\<forall>j<length repos. (phases st' ! j = Waiting) = (next_index st' \<le> j)"
  proof (intro allI impI)
    fix j assume j: "j < length repos"
    show "(phases st' ! j = Waiting) = (next_index st' \<le> j)"
    proof (cases "j = i")
      case True
      with p q wait i il st' show ?thesis by simp
    next
      case False
      with wait j st' show ?thesis by simp
    qed
  qed
  moreover from length_filter_update [OF il, of holds_token q] sem' s
  have "sem' = length (filter holds_token ((phases st)[i := q]))"
    by (simp split: if_splits)
  moreover from length_filter_update [OF il, of alive q] wg' w
  have "wg' = length (filter alive ((phases st)[i := q]))"
    by (simp split: if_splits)
  ultimately show ?thesis
    using len nx le st' by (simp add: inv_count_def)
qed

lemma inv_count_step:
  assumes inv: "inv_count repos st" and step: "step L W gitCl repos act st = Some st'"
  shows "inv_count repos st'"
proof (cases act)
  case Dispatch
  define i where "i = next_index st"
  from step Dispatch have en: "i < length repos" "sem st < sem_capacity"
    and st': "st' = st\<lparr>trace := trace st @ [Log_Fetching (URL (objects st ! (repos ! i)))],
               wg := wg st + 1, sem := sem st + 1,
               phases := (phases st)[i := Spawned], next_index := i + 1\<rparr>"
    by (simp_all add: step_Dispatch i_def)
  from inv have len: "length (phases st) = length repos"
    and wait: "\<forall>j<length repos. (phases st ! j = Waiting) = (next_index st \<le> j)"
    and s: "sem st = length (filter holds_token (phases st))"
    and w: "wg st = length (filter alive (phases st))"
    by (simp_all add: inv_count_def)
  from en len have il: "i < length (phases st)" by simp
  from wait en have pi: "phases st ! i = Waiting" by (simp add: i_def)
  have "\<forall>j<length repos. (phases st' ! j = Waiting) = (next_index st' \<le> j)"
  proof (intro allI impI)
    fix j assume j: "j < length repos"
    show "(phases st' ! j = Waiting) = (next_index st' \<le> j)"
    proof (cases "j = i")
      case True
      with il st' show ?thesis by simp
    next
      case False
      with wait j st' show ?thesis by (auto simp: i_def)
    qed
  qed
  moreover from length_filter_update [OF il, of holds_token Spawned] pi s
  have "sem st + 1 = length (filter holds_token ((phases st)[i := Spawned]))"
    by (simp add: holds_token_def)
  moreover from length_filter_update [OF il, of alive Spawned] pi w
  have "wg st + 1 = length (filter alive ((phases st)[i := Spawned]))"
    by (simp add: alive_def)
  ultimately show ?thesis
    using len en st' by (simp add: inv_count_def)
next
  case (Start i)
  with step have en: "i < length repos" "phases st ! i = Spawned"
    and st': "st' = st\<lparr>phases := (phases st)[i := Running]\<rparr>"
    by (simp_all add: step_Start)
  from inv have le: "sem st \<le> sem_capacity" by (simp add: inv_count_def)
  show ?thesis
    by (rule inv_count_phase [OF inv en(1), where q = Running and sem' = "sem st"
          and wg' = "wg st"])
      (simp_all add: st' en le holds_token_def alive_def)
next
  case (Finish i)
  with step have en: "i < length repos" "phases st ! i = Running"
    and alt: "case GetLicense L W gitCl (objects st ! (repos ! i)) of
           Panic \<Rightarrow> st' = st\<lparr>crashed := True\<rparr>
         | Return (evs, err1, r') \<Rightarrow>
             st' = st\<lparr>objects := (objects st)[repos ! i := r'],
                      trace := trace st @ evs
                        @ (case err1 of None \<Rightarrow> [] | Some e \<Rightarrow> [Log_Error e]),
                      phases := (phases st)[i := Returned]\<rparr>"
    by (simp_all add: step_Finish)
  show ?thesis
  proof (cases "GetLicense L W gitCl (objects st ! (repos ! i))")
    case Panic
    with alt have "st' = st\<lparr>crashed := True\<rparr>" by simp
    with inv show ?thesis by (simp add: inv_count_def)
  next
    case (Return x)
    obtain evs err1 r' where x: "x = (evs, err1, r')" by (cases x)
    with alt Return have st': "st' = st\<lparr>objects := (objects st)[repos ! i := r'],
                      trace := trace st @ evs
                        @ (case err1 of None \<Rightarrow> [] | Some e \<Rightarrow> [Log_Error e]),
                      phases := (phases st)[i := Returned]\<rparr>"
      by simp
    from inv have le: "sem st \<le> sem_capacity" by (simp add: inv_count_def)
    show ?thesis
      by (rule inv_count_phase [OF inv en(1), where q = Returned and sem' = "sem st"
            and wg' = "wg st"])
        (simp_all add: st' en le holds_token_def alive_def)
  qed
next
  case (Release i)
  with step have en: "i < length repos" "phases st ! i = Returned"
    and st': "st' = st\<lparr>sem := sem st - 1, phases := (phases st)[i := Released]\<rparr>"
    by (simp_all add: step_Release)
  from inv have le: "sem st \<le> sem_capacity"
    and len: "length (phases st) = length repos"
    and s: "sem st = length (filter holds_token (phases st))"
    by (simp_all add: inv_count_def)
  from en len have "phases st ! i \<in> set (filter holds_token (phases st))"
    by (simp add: holds_token_def) (metis nth_mem)
  then have "0 < length (filter holds_token (phases st))"
    by (metis length_pos_if_in_set)
  with s have pos: "0 < sem st" by simp
  show ?thesis
    by (rule inv_count_phase [OF inv en(1), where q = Released and sem' = "sem st - 1"
          and wg' = "wg st"])
      (use pos le in \<open>simp_all add: st' en holds_token_def alive_def\<close>)
next
  case (WgDone i)
  with step have en: "i < length repos" "phases st ! i = Released"
    and st': "st' = st\<lparr>wg := wg st - 1, phases := (phases st)[i := Done]\<rparr>"
    by (simp_all add: step_WgDone)
  from inv have le: "sem st \<le> sem_capacity"
    and len: "length (phases st) = length repos"
    and w: "wg st = length (filter alive (phases st))"
    by (simp_all add: inv_count_def)
  from en len have "phases st ! i \<in> set (filter alive (phases st))"
    by (simp add: alive_def) (metis nth_mem)
  then have "0 < length (filter alive (phases st))"
    by (metis length_pos_if_in_set)
  with w have pos: "0 < wg st" by simp
  show ?thesis
    by (rule inv_count_phase [OF inv en(1), where q = Done and sem' = "sem st"
          and wg' = "wg st - 1"])
      (use pos le in \<open>simp_all add: st' en holds_token_def alive_def\<close>)
qed

lemma inv_count_run:
  assumes "inv_count repos st" and "run L W gitCl repos sched st = Some st'"
  shows "inv_count repos st'"
  using assms
proof (induction sched arbitrary: st)
  case Nil
  then show ?case by simp
next
  case (Cons act acts)
  from Cons.prems(2) obtain st1 where s1: "step L W gitCl repos act st = Some st1"
    and r: "run L W gitCl repos acts st1 = Some st'"
    by (auto split: option.splits)
  from Cons.prems(1) s1 have "inv_count repos st1" by (rule inv_count_step)
  from Cons.IH [OF this r] show ?case .
qed

lemma inv_count_in_flight:
  assumes "inv_count repos st"
  shows "in_flight st \<le> sem st" and "sem st \<le> sem_capacity"
proof -
  have "length (filter (\<lambda>p. p = Running) (phases st))
      \<le> length (filter holds_token (phases st))"
    by (rule length_filter_mono) (simp add: holds_token_def)
  with assms show "in_flight st \<le> sem st" by (simp add: in_flight_def inv_count_def)
  from assms show "sem st \<le> sem_capacity" by (simp add: inv_count_def)
qed

text \<open>When the caller is let through \<open>wg.Wait()\<close> after the loop, every goroutine is
  done.\<close>

lemma inv_count_joined:
  assumes inv: "inv_count repos st" and jn: "joined repos st" and j: "j < length repos"
  shows "phases st ! j = Done"
proof -
  from inv have len: "length (phases st) = length repos"
    and wait: "\<forall>j<length repos. (phases st ! j = Waiting) = (next_index st \<le> j)"
    and w: "wg st = length (filter alive (phases st))"
    by (simp_all add: inv_count_def)
  from jn w have "length (filter alive (phases st)) = 0" by (simp add: joined_def)
  then have "\<forall>x\<in>set (phases st). \<not> alive x" by (simp only: length_filter_zero)
  with j len have "\<not> alive (phases st ! j)" by simp
  moreover from wait jn j have "phases st ! j \<noteq> Waiting" by (simp add: joined_def)
  ultimately show ?thesis by (cases "phases st ! j") (simp_all add: alive_def)
qed

subsection \<open>C5: the semaphore bounds the calls in flight\<close>

text \<open>
  C5: in every state that the goroutines of \<open>ParseDependencies\<close> can reach, under any
  schedule and for any list of repositories, at most 5 \<open>GetLicense\<close> calls are in flight:
  the goroutines between their dispatch and their release are as many as the elements
  in the channel \<open>sem\<close>, which are at most 5, and the calls in flight are among them.
\<close>

theorem in_flight_bounded:
  assumes "run L W gitCl repos sched (init_run h tr (length repos)) = Some st"
  shows "in_flight st \<le> 5 \<and> in_flight st \<le> length (filter holds_token (phases st))
    \<and> length (filter holds_token (phases st)) = sem st \<and> sem st \<le> sem_capacity"
proof -
  from inv_count_init assms have inv: "inv_count repos st" by (rule inv_count_run)
  then have "sem st = length (filter holds_token (phases st))" by (simp add: inv_count_def)
  with inv_count_in_flight [OF inv] show ?thesis by (simp add: sem_capacity_def)
qed

subsection \<open>C7: no API key\<close>

text \<open>
  C7: when \<open>thanks\<close> is set and the environment variable GITHUB_API_KEY is absent or
  empty, \<open>ParseDependencies\<close> returns \<open>ErrNoAPIKey\<close>, under every schedule, with no
  event at all (no read of the manifest, no log line, no network call) and with the memory
  and the client as they were.
\<close>

theorem ParseDependencies_no_api_key:
  assumes "thanks"
    and "environ W ''GITHUB_API_KEY'' = None \<or> environ W ''GITHUB_API_KEY'' = Some []"
  shows "ParseDependencies L W sched s c includeIndirect thanks
    = Some (Return (Some ErrNoAPIKey), s, c, [])"
proof -
  from assms(2) have "Getenv W ''GITHUB_API_KEY'' = []"
    by (auto simp: Getenv_def)
  with assms(1) show ?thesis
    by (simp add: ParseDependencies_def)
qed

subsection \<open>What a call does not change\<close>

lemma same_call_refl: "same_call r r"
  by (simp add: same_call_def)

lemma same_call_trans:
  assumes "same_call r r'" and "same_call r' r''"
  shows "same_call r r''"
  using assms by (simp add: same_call_def)

lemma GetLicense_same_call:
  assumes "GetLicense L W gc r = Return (evs, e, r')"
  shows "same_call r r'"
proof (cases "Host r = ''github.com''")
  case True
  from GetLicense_api_Return [OF True assms]
  obtain sn lc tx where "r' = r\<lparr>Shortname := sn, License := lc, Text := tx\<rparr>"
    by blast
  then show ?thesis by (simp add: same_call_def)
next
  case False
  with GetLicense_keeps [OF assms] show ?thesis by (simp add: same_call_def)
qed

lemma GetLicense_api_Panic:
  assumes "Host r = ''github.com''"
  shows "GetLicense L W gc r = Panic \<longleftrightarrow>
    (\<exists>rl. Repositories_License W (Author r) (Project r) = Inr rl \<and> Key rl = None)"
proof (cases "Repositories_License W (Author r) (Project r)")
  case (Inl err)
  with assms show ?thesis by (simp add: GetLicense_def)
next
  case (Inr rl)
  show ?thesis
  proof (cases "Key rl")
    case None
    with Inr assms show ?thesis by (simp add: GetLicense_def)
  next
    case (Some key)
    with Inr assms show ?thesis
      by (simp add: GetLicense_def Let_def split: prod.splits)
  qed
qed

text \<open>Whether \<open>GetLicense\<close> panics depends on the request only.\<close>

lemma same_call_Panic:
  assumes "same_call r r'"
  shows "GetLicense L W gc r' = Panic \<longleftrightarrow> GetLicense L W gc r = Panic"
proof -
  from assms have h: "Host r' = Host r" and u: "URL r' = URL r" and a: "Author r' = Author r"
    by (simp_all add: same_call_def)
  consider "Host r = ''pkg.go.dev''" | "Host r = ''github.com''"
    | "Host r \<noteq> ''pkg.go.dev''" "Host r \<noteq> ''github.com''"
    by blast
  then show ?thesis
  proof cases
    case 1
    with h have "Host r' = ''pkg.go.dev''" by simp
    from GetLicense_fallback_Panic [OF this, of L W gc] GetLicense_fallback_Panic [OF 1, of L W gc] u
    show ?thesis by simp
  next
    case 2
    with assms have p: "Project r' = Project r" by (simp add: same_call_def)
    from 2 h have "Host r' = ''github.com''" by simp
    from GetLicense_api_Panic [OF this, of L W gc] GetLicense_api_Panic [OF 2, of L W gc] a p
    show ?thesis by simp
  next
    case 3
    with h show ?thesis by (simp add: GetLicense_def)
  qed
qed

subsection \<open>The invariants of the objects\<close>

lemma run_append:
  "run L W gitCl repos (xs @ ys) st =
     (case run L W gitCl repos xs st of
        None \<Rightarrow> None
      | Some st1 \<Rightarrow> run L W gitCl repos ys st1)"
  by (induction xs arbitrary: st) (simp_all split: option.splits)

lemma enriched_mono:
  assumes "enriched L W gitCl r0 r tr" and "set tr \<subseteq> set tr'"
  shows "enriched L W gitCl r0 r tr'"
proof -
  from assms(1) obtain evs e where g: "GetLicense L W gitCl r0 = Return (evs, e, r)"
    and l: "case e of None \<Rightarrow> True | Some err \<Rightarrow> Log_Error err \<in> set tr"
    unfolding enriched_def by blast
  from l assms(2) have "case e of None \<Rightarrow> True | Some err \<Rightarrow> Log_Error err \<in> set tr'"
    by (auto split: option.splits)
  with g show ?thesis unfolding enriched_def by blast
qed

lemma count_list_pos: "x \<in> set xs \<Longrightarrow> 0 < count_list xs x"
  by (induction xs) auto

lemma count_list_one:
  assumes "count_list xs (xs ! j) = 1" and "i < length xs" and "j < length xs"
    and "xs ! i = xs ! j"
  shows "i = j"
  using assms
proof (induction xs arbitrary: i j)
  case Nil
  then show ?case by simp
next
  case (Cons x xs)
  show ?case
  proof (cases i)
    case 0
    show ?thesis
    proof (cases j)
      case 0
      with \<open>i = 0\<close> show ?thesis by simp
    next
      case (Suc j')
      with Cons.prems 0 have "x = xs ! j'" and "j' < length xs" by simp_all
      then have "x \<in> set xs" by simp
      then have "0 < count_list xs x" by (rule count_list_pos)
      with Cons.prems(1) Suc \<open>x = xs ! j'\<close> show ?thesis by simp
    qed
  next
    case (Suc i')
    show ?thesis
    proof (cases j)
      case 0
      with Cons.prems Suc have "xs ! i' = x" and "i' < length xs" by simp_all
      then have "x \<in> set xs" by auto
      then have "0 < count_list xs x" by (rule count_list_pos)
      with Cons.prems(1) 0 show ?thesis by simp
    next
      case (Suc j')
      with Cons.prems have "xs ! j' \<in> set xs" by simp
      then have "0 < count_list xs (xs ! j')" by (rule count_list_pos)
      with Suc Cons.prems \<open>i = Suc i'\<close> have "count_list xs (xs ! j') = 1"
        by (simp split: if_splits)
      from Cons.IH [OF this] Cons.prems Suc \<open>i = Suc i'\<close> show ?thesis by simp
    qed
  qed
qed

lemma inv_objects_init: "inv_objects L W gitCl h repos (init_run h tr (length repos))"
  by (simp add: inv_objects_def init_run_def pending_def same_call_refl)

text \<open>A step that changes the phase of goroutine \<open>i\<close> only, on the same side of its
  \<open>GetLicense\<close> call.\<close>

lemma inv_objects_phase:
  assumes inv: "inv_objects L W gitCl h repos st"
    and len: "length (phases st) = length repos" and i: "i < length repos"
    and q: "pending q = pending (phases st ! i)"
    and st': "phases st' = (phases st)[i := q]" "objects st' = objects st"
      "crashed st' = crashed st" "set (trace st) \<subseteq> set (trace st')"
  shows "inv_objects L W gitCl h repos st'"
proof -
  from inv have all: "\<forall>j<length repos. count_list repos (repos ! j) = 1 \<longrightarrow>
          (if pending (phases st ! j)
           then objects st ! (repos ! j) = h ! (repos ! j)
           else enriched L W gitCl (h ! (repos ! j)) (objects st ! (repos ! j)) (trace st))"
    by (simp add: inv_objects_def)
  have "\<forall>j<length repos. count_list repos (repos ! j) = 1 \<longrightarrow>
          (if pending (phases st' ! j)
           then objects st' ! (repos ! j) = h ! (repos ! j)
           else enriched L W gitCl (h ! (repos ! j)) (objects st' ! (repos ! j)) (trace st'))"
  proof (intro allI impI)
    fix j assume j: "j < length repos" and one: "count_list repos (repos ! j) = 1"
    from i len have pj: "pending (phases st' ! j) = pending (phases st ! j)"
      by (cases "j = i") (simp_all add: st'(1) q)
    show "if pending (phases st' ! j)
          then objects st' ! (repos ! j) = h ! (repos ! j)
          else enriched L W gitCl (h ! (repos ! j)) (objects st' ! (repos ! j)) (trace st')"
    proof (cases "pending (phases st ! j)")
      case True
      with all j one pj show ?thesis by (simp add: st'(2))
    next
      case False
      with all j one
      have "enriched L W gitCl (h ! (repos ! j)) (objects st ! (repos ! j)) (trace st)"
        by simp
      then have "enriched L W gitCl (h ! (repos ! j)) (objects st ! (repos ! j)) (trace st')"
        using st'(4) by (rule enriched_mono)
      with False pj show ?thesis by (simp add: st'(2))
    qed
  qed
  with inv st'(2,3) show ?thesis by (simp add: inv_objects_def)
qed

lemma inv_objects_step:
  assumes cnt: "inv_count repos st" and inv: "inv_objects L W gitCl h repos st"
    and valid: "\<forall>a\<in>set repos. a < length h"
    and step: "step L W gitCl repos act st = Some st'"
  shows "inv_objects L W gitCl h repos st'"
proof -
  from cnt have len: "length (phases st) = length repos"
    and wait: "\<forall>j<length repos. (phases st ! j = Waiting) = (next_index st \<le> j)"
    by (simp_all add: inv_count_def)
  show ?thesis
  proof (cases act)
    case Dispatch
    with step have en: "next_index st < length repos"
      and st': "st' = st\<lparr>trace := trace st
                  @ [Log_Fetching (URL (objects st ! (repos ! next_index st)))],
               wg := wg st + 1, sem := sem st + 1,
               phases := (phases st)[next_index st := Spawned],
               next_index := next_index st + 1\<rparr>"
      by (simp_all add: step_Dispatch)
    from wait en have "phases st ! next_index st = Waiting" by simp
    then have "pending Spawned = pending (phases st ! next_index st)"
      by (simp add: pending_def)
    from inv len en this show ?thesis
      by (rule inv_objects_phase) (auto simp: st')
  next
    case (Start i)
    with step have en: "i < length repos" "phases st ! i = Spawned"
      and st': "st' = st\<lparr>phases := (phases st)[i := Running]\<rparr>"
      by (simp_all add: step_Start)
    from en(2) have "pending Running = pending (phases st ! i)"
      by (simp add: pending_def)
    from inv len en(1) this show ?thesis
      by (rule inv_objects_phase) (auto simp: st')
  next
    case (Release i)
    with step have en: "i < length repos" "phases st ! i = Returned"
      and st': "st' = st\<lparr>sem := sem st - 1, phases := (phases st)[i := Released]\<rparr>"
      by (simp_all add: step_Release)
    from en(2) have "pending Released = pending (phases st ! i)"
      by (simp add: pending_def)
    from inv len en(1) this show ?thesis
      by (rule inv_objects_phase) (auto simp: st')
  next
    case (WgDone i)
    with step have en: "i < length repos" "phases st ! i = Released"
      and st': "st' = st\<lparr>wg := wg st - 1, phases := (phases st)[i := Done]\<rparr>"
      by (simp_all add: step_WgDone)
    from en(2) have "pending Done = pending (phases st ! i)"
      by (simp add: pending_def)
    from inv len en(1) this show ?thesis
      by (rule inv_objects_phase) (auto simp: st')
  next
    case (Finish i)
    with step have en: "i < length repos" "phases st ! i = Running"
      and alt: "case GetLicense L W gitCl (objects st ! (repos ! i)) of
           Panic \<Rightarrow> st' = st\<lparr>crashed := True\<rparr>
         | Return (evs, err1, r') \<Rightarrow>
             st' = st\<lparr>objects := (objects st)[repos ! i := r'],
                      trace := trace st @ evs
                        @ (case err1 of None \<Rightarrow> [] | Some e \<Rightarrow> [Log_Error e]),
                      phases := (phases st)[i := Returned]\<rparr>"
      by (simp_all add: step_Finish)
    from inv have lo: "length (objects st) = length h"
      and sc: "\<forall>a<length h. same_call (h ! a) (objects st ! a)"
      and all: "\<forall>j<length repos. count_list repos (repos ! j) = 1 \<longrightarrow>
          (if pending (phases st ! j)
           then objects st ! (repos ! j) = h ! (repos ! j)
           else enriched L W gitCl (h ! (repos ! j)) (objects st ! (repos ! j)) (trace st))"
      by (simp_all add: inv_objects_def)
    from valid en(1) have ri: "repos ! i < length h" by simp
    with sc have sci: "same_call (h ! (repos ! i)) (objects st ! (repos ! i))" by simp
    from step have nc: "\<not> crashed st" by (simp add: step_def split: if_splits)
    show ?thesis
    proof (cases "GetLicense L W gitCl (objects st ! (repos ! i))")
      case Panic
      with alt have st': "st' = st\<lparr>crashed := True\<rparr>" by simp
      from Panic same_call_Panic [OF sci, of L W gitCl]
      have "GetLicense L W gitCl (h ! (repos ! i)) = Panic" by simp
      with en(1) have "\<exists>j<length repos. GetLicense L W gitCl (h ! (repos ! j)) = Panic"
        by blast
      with lo sc all show ?thesis by (simp add: inv_objects_def st')
    next
      case (Return x)
      obtain evs err1 r' where x: "x = (evs, err1, r')" by (cases x)
      define tr' where "tr' = trace st @ evs
          @ (case err1 of None \<Rightarrow> [] | Some e \<Rightarrow> [Log_Error e])"
      from alt Return x have st': "st' = st\<lparr>objects := (objects st)[repos ! i := r'],
            trace := tr', phases := (phases st)[i := Returned]\<rparr>"
        by (simp add: tr'_def)
      from ri lo have rio: "repos ! i < length (objects st)" by simp
      have sub: "set (trace st) \<subseteq> set tr'" by (auto simp: tr'_def)
      from Return x have "same_call (objects st ! (repos ! i)) r'"
        by (simp add: GetLicense_same_call)
      with sci have scr: "same_call (h ! (repos ! i)) r'" by (rule same_call_trans)
      have sc': "\<forall>a<length h. same_call (h ! a) (objects st' ! a)"
      proof (intro allI impI)
        fix a assume a: "a < length h"
        show "same_call (h ! a) (objects st' ! a)"
        proof (cases "a = repos ! i")
          case True
          with scr rio show ?thesis by (simp add: st')
        next
          case False
          with sc a show ?thesis by (simp add: st')
        qed
      qed
      have allq: "\<forall>j<length repos. count_list repos (repos ! j) = 1 \<longrightarrow>
          (if pending (phases st' ! j)
           then objects st' ! (repos ! j) = h ! (repos ! j)
           else enriched L W gitCl (h ! (repos ! j)) (objects st' ! (repos ! j)) (trace st'))"
      proof (intro allI impI)
        fix j assume j: "j < length repos" and one: "count_list repos (repos ! j) = 1"
        show "if pending (phases st' ! j)
          then objects st' ! (repos ! j) = h ! (repos ! j)
          else enriched L W gitCl (h ! (repos ! j)) (objects st' ! (repos ! j)) (trace st')"
        proof (cases "j = i")
          case True
          from all j one True en(2) have "objects st ! (repos ! i) = h ! (repos ! i)"
            by (simp add: pending_def)
          with Return x have "GetLicense L W gitCl (h ! (repos ! i)) = Return (evs, err1, r')"
            by simp
          moreover have "case err1 of None \<Rightarrow> True | Some err \<Rightarrow> Log_Error err \<in> set tr'"
            by (simp add: tr'_def split: option.splits)
          ultimately have "enriched L W gitCl (h ! (repos ! i)) r' tr'"
            unfolding enriched_def by blast
          with True en(1) len rio show ?thesis by (simp add: st' pending_def)
        next
          case False
          have ne: "repos ! j \<noteq> repos ! i"
          proof
            assume "repos ! j = repos ! i"
            then have "repos ! i = repos ! j" by simp
            from count_list_one [OF one en(1) j this] False show False by simp
          qed
          from False have pj: "phases st' ! j = phases st ! j" by (simp add: st')
          from ne have oj: "objects st' ! (repos ! j) = objects st ! (repos ! j)"
            by (simp add: st')
          show ?thesis
          proof (cases "pending (phases st ! j)")
            case True
            with all j one pj oj show ?thesis by simp
          next
            case False
            with all j one
            have "enriched L W gitCl (h ! (repos ! j)) (objects st ! (repos ! j)) (trace st)"
              by simp
            then have "enriched L W gitCl (h ! (repos ! j)) (objects st ! (repos ! j)) tr'"
              using sub by (rule enriched_mono)
            with False pj oj show ?thesis by (simp add: st')
          qed
        qed
      qed
      from nc have c': "\<not> crashed st'" by (simp add: st')
      from lo have l': "length (objects st') = length h" by (simp add: st')
      from l' sc' c' allq show ?thesis unfolding inv_objects_def by blast
    qed
  qed
qed

text \<open>The repository whose call fails without writing: whoever runs on its pointer, it
  stays as it was.\<close>

lemma inv_failed_init:
  "inv_failed h repos i err (init_run h tr (length repos))" if "i < length repos"
  using that by (simp add: inv_failed_def init_run_def pending_def)

lemma inv_failed_step:
  assumes cnt: "inv_count repos st" and obj: "inv_objects L W gitCl h repos st"
    and inv: "inv_failed h repos i err st"
    and valid: "\<forall>a\<in>set repos. a < length h" and i: "i < length repos"
    and fail: "GetLicense L W gitCl (h ! (repos ! i)) = Return (evs0, Some err, h ! (repos ! i))"
    and step: "step L W gitCl repos act st = Some st'"
  shows "inv_failed h repos i err st'"
proof -
  from cnt have len: "length (phases st) = length repos"
    and wait: "\<forall>j<length repos. (phases st ! j = Waiting) = (next_index st \<le> j)"
    by (simp_all add: inv_count_def)
  from inv have same: "objects st ! (repos ! i) = h ! (repos ! i)"
    and lg: "pending (phases st ! i) \<or> Log_Error err \<in> set (trace st)"
    by (simp_all add: inv_failed_def)
  from i len have il: "i < length (phases st)" by simp
  show ?thesis
  proof (cases act)
    case Dispatch
    with step have en: "next_index st < length repos"
      and st': "st' = st\<lparr>trace := trace st
                  @ [Log_Fetching (URL (objects st ! (repos ! next_index st)))],
               wg := wg st + 1, sem := sem st + 1,
               phases := (phases st)[next_index st := Spawned],
               next_index := next_index st + 1\<rparr>"
      by (simp_all add: step_Dispatch)
    from wait en have "phases st ! next_index st = Waiting" by simp
    with lg il have "pending (phases st' ! i) \<or> Log_Error err \<in> set (trace st')"
      by (cases "i = next_index st") (auto simp: st' pending_def)
    with same show ?thesis by (simp add: inv_failed_def st')
  next
    case (Start k)
    with step have en: "k < length repos" "phases st ! k = Spawned"
      and st': "st' = st\<lparr>phases := (phases st)[k := Running]\<rparr>"
      by (simp_all add: step_Start)
    from lg il have "pending (phases st' ! i) \<or> Log_Error err \<in> set (trace st')"
      by (cases "i = k") (auto simp: st' pending_def)
    with same show ?thesis by (simp add: inv_failed_def st')
  next
    case (Release k)
    with step have en: "k < length repos" "phases st ! k = Returned"
      and st': "st' = st\<lparr>sem := sem st - 1, phases := (phases st)[k := Released]\<rparr>"
      by (simp_all add: step_Release)
    from lg il en(2) have "pending (phases st' ! i) \<or> Log_Error err \<in> set (trace st')"
      by (cases "i = k") (auto simp: st' pending_def)
    with same show ?thesis by (simp add: inv_failed_def st')
  next
    case (WgDone k)
    with step have en: "k < length repos" "phases st ! k = Released"
      and st': "st' = st\<lparr>wg := wg st - 1, phases := (phases st)[k := Done]\<rparr>"
      by (simp_all add: step_WgDone)
    from lg il en(2) have "pending (phases st' ! i) \<or> Log_Error err \<in> set (trace st')"
      by (cases "i = k") (auto simp: st' pending_def)
    with same show ?thesis by (simp add: inv_failed_def st')
  next
    case (Finish k)
    with step have en: "k < length repos" "phases st ! k = Running"
      and alt: "case GetLicense L W gitCl (objects st ! (repos ! k)) of
           Panic \<Rightarrow> st' = st\<lparr>crashed := True\<rparr>
         | Return (evs, err1, r') \<Rightarrow>
             st' = st\<lparr>objects := (objects st)[repos ! k := r'],
                      trace := trace st @ evs
                        @ (case err1 of None \<Rightarrow> [] | Some e \<Rightarrow> [Log_Error e]),
                      phases := (phases st)[k := Returned]\<rparr>"
      by (simp_all add: step_Finish)
    from obj have lo: "length (objects st) = length h" by (simp add: inv_objects_def)
    from valid en(1) lo have rk: "repos ! k < length (objects st)" by simp
    show ?thesis
    proof (cases "GetLicense L W gitCl (objects st ! (repos ! k))")
      case Panic
      with alt have "st' = st\<lparr>crashed := True\<rparr>" by simp
      with inv show ?thesis by (simp add: inv_failed_def)
    next
      case (Return x)
      obtain evs err1 r' where x: "x = (evs, err1, r')" by (cases x)
      define tr' where "tr' = trace st @ evs
          @ (case err1 of None \<Rightarrow> [] | Some e \<Rightarrow> [Log_Error e])"
      from alt Return x have st': "st' = st\<lparr>objects := (objects st)[repos ! k := r'],
            trace := tr', phases := (phases st)[k := Returned]\<rparr>"
        by (simp add: tr'_def)
      have sub: "set (trace st) \<subseteq> set tr'" by (auto simp: tr'_def)
      show ?thesis
      proof (cases "repos ! k = repos ! i")
        case True
        with Return x same fail have r': "r' = h ! (repos ! i)" and e: "err1 = Some err"
          by simp_all
        from e have "Log_Error err \<in> set tr'" by (simp add: tr'_def)
        moreover from True rk r' have "objects st' ! (repos ! i) = h ! (repos ! i)"
          by (simp add: st')
        ultimately show ?thesis by (simp add: inv_failed_def st')
      next
        case False
        then have ki: "k \<noteq> i" by auto
        from False same have "objects st' ! (repos ! i) = h ! (repos ! i)"
          by (simp add: st')
        moreover from ki lg sub have "pending (phases st' ! i) \<or> Log_Error err \<in> set (trace st')"
          by (auto simp: st')
        ultimately show ?thesis by (simp add: inv_failed_def)
      qed
    qed
  qed
qed

lemma invariants_run:
  assumes "inv_count repos st" and "inv_objects L W gitCl h repos st"
    and "\<forall>a\<in>set repos. a < length h"
    and "run L W gitCl repos sched st = Some st'"
  shows "inv_count repos st' \<and> inv_objects L W gitCl h repos st'"
  using assms
proof (induction sched arbitrary: st)
  case Nil
  then show ?case by simp
next
  case (Cons act acts)
  from Cons.prems(4) obtain st1 where s1: "step L W gitCl repos act st = Some st1"
    and r: "run L W gitCl repos acts st1 = Some st'"
    by (auto split: option.splits)
  from Cons.prems(1) s1 have c1: "inv_count repos st1" by (rule inv_count_step)
  from Cons.prems(1,2,3) s1 have h1: "inv_objects L W gitCl h repos st1"
    by (rule inv_objects_step)
  from Cons.IH [OF c1 h1 Cons.prems(3) r] show ?case .
qed

lemma inv_failed_run:
  assumes "inv_count repos st" and "inv_objects L W gitCl h repos st"
    and "inv_failed h repos i err st"
    and "\<forall>a\<in>set repos. a < length h" and "i < length repos"
    and "GetLicense L W gitCl (h ! (repos ! i)) = Return (evs0, Some err, h ! (repos ! i))"
    and "run L W gitCl repos sched st = Some st'"
  shows "inv_failed h repos i err st'"
  using assms
proof (induction sched arbitrary: st)
  case Nil
  then show ?case by simp
next
  case (Cons act acts)
  from Cons.prems(7) obtain st1 where s1: "step L W gitCl repos act st = Some st1"
    and r: "run L W gitCl repos acts st1 = Some st'"
    by (auto split: option.splits)
  from Cons.prems(1) s1 have c1: "inv_count repos st1" by (rule inv_count_step)
  from Cons.prems(1,2,4) s1 have h1: "inv_objects L W gitCl h repos st1"
    by (rule inv_objects_step)
  from Cons.prems(1,2,3,4,5,6) s1 have f1: "inv_failed h repos i err st1"
    by (rule inv_failed_step)
  from Cons.IH [OF c1 h1 f1 Cons.prems(4,5,6) r] show ?case .
qed

subsection \<open>Every execution can be completed\<close>

lemma remaining_update:
  assumes "i < length (phases st)" and "phases st' = (phases st)[i := q]"
    and "weight q < weight (phases st ! i)"
  shows "remaining st' < remaining st"
proof -
  have "sum_list (map weight (ps[i := q])) + weight (ps ! i)
      = sum_list (map weight ps) + weight q" if "i < length ps" for ps
    using that
  proof (induction ps arbitrary: i)
    case Nil
    then show ?case by simp
  next
    case (Cons p ps)
    show ?case
    proof (cases i)
      case 0
      then show ?thesis by simp
    next
      case (Suc k)
      with Cons.prems have "k < length ps" by simp
      from Cons.IH [OF this] Suc show ?thesis by simp
    qed
  qed
  from this [OF assms(1)] assms(2,3) show ?thesis by (simp add: remaining_def)
qed

text \<open>Unless the caller is through, some goroutine or the loop can take a step, and the
  step leaves less to do.\<close>

lemma progress:
  assumes cnt: "inv_count repos st" and nc: "\<not> crashed st"
    and safe: "\<forall>j<length repos. GetLicense L W gitCl (objects st ! (repos ! j)) \<noteq> Panic"
    and nj: "\<not> joined repos st"
  shows "\<exists>act st'. step L W gitCl repos act st = Some st' \<and> \<not> crashed st'
    \<and> remaining st' < remaining st"
proof -
  from cnt have len: "length (phases st) = length repos"
    and nx: "next_index st \<le> length repos"
    and wait: "\<forall>j<length repos. (phases st ! j = Waiting) = (next_index st \<le> j)"
    and s: "sem st = length (filter holds_token (phases st))"
    and w: "wg st = length (filter alive (phases st))"
    by (simp_all add: inv_count_def)
  show ?thesis
  proof (cases "\<exists>j<length repos. alive (phases st ! j)")
    case True
    then obtain j where j: "j < length repos" and al: "alive (phases st ! j)" by blast
    from j len have jl: "j < length (phases st)" by simp
    from al consider "phases st ! j = Spawned" | "phases st ! j = Running"
      | "phases st ! j = Returned" | "phases st ! j = Released"
      by (auto simp: alive_def)
    then show ?thesis
    proof cases
      case 1
      define st' where "st' = st\<lparr>phases := (phases st)[j := Running]\<rparr>"
      from 1 j nc have "step L W gitCl repos (Start j) st = Some st'"
        by (simp add: step_Start st'_def)
      moreover from nc have "\<not> crashed st'" by (simp add: st'_def)
      moreover from 1 have "remaining st' < remaining st"
        by (intro remaining_update [OF jl, of _ Running]) (simp_all add: st'_def)
      ultimately show ?thesis by blast
    next
      case 2
      from safe j obtain evs err1 r'
        where gl: "GetLicense L W gitCl (objects st ! (repos ! j)) = Return (evs, err1, r')"
        by (cases "GetLicense L W gitCl (objects st ! (repos ! j))") auto
      define st' where "st' = st\<lparr>objects := (objects st)[repos ! j := r'],
          trace := trace st @ evs @ (case err1 of None \<Rightarrow> [] | Some e \<Rightarrow> [Log_Error e]),
          phases := (phases st)[j := Returned]\<rparr>"
      from 2 j nc gl have "step L W gitCl repos (Finish j) st = Some st'"
        by (simp add: step_Finish st'_def)
      moreover from nc have "\<not> crashed st'" by (simp add: st'_def)
      moreover from 2 have "remaining st' < remaining st"
        by (intro remaining_update [OF jl, of _ Returned]) (simp_all add: st'_def)
      ultimately show ?thesis by blast
    next
      case 3
      define st' where "st' = st\<lparr>sem := sem st - 1, phases := (phases st)[j := Released]\<rparr>"
      from 3 j nc have "step L W gitCl repos (Release j) st = Some st'"
        by (simp add: step_Release st'_def)
      moreover from nc have "\<not> crashed st'" by (simp add: st'_def)
      moreover from 3 have "remaining st' < remaining st"
        by (intro remaining_update [OF jl, of _ Released]) (simp_all add: st'_def)
      ultimately show ?thesis by blast
    next
      case 4
      define st' where "st' = st\<lparr>wg := wg st - 1, phases := (phases st)[j := Done]\<rparr>"
      from 4 j nc have "step L W gitCl repos (WgDone j) st = Some st'"
        by (simp add: step_WgDone st'_def)
      moreover from nc have "\<not> crashed st'" by (simp add: st'_def)
      moreover from 4 have "remaining st' < remaining st"
        by (intro remaining_update [OF jl, of _ Done]) (simp_all add: st'_def)
      ultimately show ?thesis by blast
    qed
  next
    case False
    with len have none: "\<forall>x\<in>set (phases st). \<not> alive x"
      by (metis in_set_conv_nth)
    then have "length (filter alive (phases st)) = 0"
      by (simp only: length_filter_zero)
    with w have w0: "wg st = 0" by simp
    from none have "\<forall>x\<in>set (phases st). \<not> holds_token x"
      by (auto simp: alive_def holds_token_def)
    then have "length (filter holds_token (phases st)) = 0"
      by (simp only: length_filter_zero)
    with s have s0: "sem st = 0" by simp
    from nj w0 nx have lt: "next_index st < length repos" by (simp add: joined_def)
    with len have il: "next_index st < length (phases st)" by simp
    from wait lt have pw: "phases st ! next_index st = Waiting" by simp
    define st' where "st' = st\<lparr>trace := trace st
          @ [Log_Fetching (URL (objects st ! (repos ! next_index st)))],
        wg := wg st + 1, sem := sem st + 1,
        phases := (phases st)[next_index st := Spawned],
        next_index := next_index st + 1\<rparr>"
    from nc lt s0 have "step L W gitCl repos Dispatch st = Some st'"
      by (simp add: step_Dispatch st'_def sem_capacity_def)
    moreover from nc have "\<not> crashed st'" by (simp add: st'_def)
    moreover from pw have "remaining st' < remaining st"
      by (intro remaining_update [OF il, of _ Spawned]) (simp_all add: st'_def)
    ultimately show ?thesis by blast
  qed
qed

text \<open>From every state that an execution reaches, the goroutines can run on until the
  caller is let through, unless a call panics.\<close>

lemma run_completes:
  assumes "inv_count repos st" and "inv_objects L W gitCl h repos st"
    and "\<forall>a\<in>set repos. a < length h"
    and "\<forall>j<length repos. GetLicense L W gitCl (h ! (repos ! j)) \<noteq> Panic"
    and "\<not> crashed st"
  shows "\<exists>post st'. run L W gitCl repos post st = Some st' \<and> \<not> crashed st'
    \<and> joined repos st'"
  using assms
proof (induction "remaining st" arbitrary: st rule: less_induct)
  case less
  show ?case
  proof (cases "joined repos st")
    case True
    with less.prems(5) have "run L W gitCl repos [] st = Some st \<and> \<not> crashed st
        \<and> joined repos st"
      by simp
    then show ?thesis by blast
  next
    case False
    have safe: "\<forall>j<length repos. GetLicense L W gitCl (objects st ! (repos ! j)) \<noteq> Panic"
    proof (intro allI impI)
      fix j assume j: "j < length repos"
      with less.prems(3) have "repos ! j < length h" by simp
      with less.prems(2) have "same_call (h ! (repos ! j)) (objects st ! (repos ! j))"
        by (simp add: inv_objects_def)
      from same_call_Panic [OF this, of L W gitCl] less.prems(4) j
      show "GetLicense L W gitCl (objects st ! (repos ! j)) \<noteq> Panic" by simp
    qed
    from progress [OF less.prems(1,5) safe False]
    obtain act st1 where s1: "step L W gitCl repos act st = Some st1"
      and nc1: "\<not> crashed st1" and lt: "remaining st1 < remaining st"
      by blast
    from less.prems(1) s1 have c1: "inv_count repos st1" by (rule inv_count_step)
    from less.prems(1,2,3) s1 have o1: "inv_objects L W gitCl h repos st1"
      by (rule inv_objects_step)
    from less.hyps [OF lt c1 o1 less.prems(3,4) nc1]
    obtain post st' where "run L W gitCl repos post st1 = Some st'"
      and fin: "\<not> crashed st'" "joined repos st'"
      by blast
    with s1 have "run L W gitCl repos (act # post) st = Some st'" by simp
    with fin show ?thesis by blast
  qed
qed

subsection \<open>Enrichment keeps the cache invariant\<close>

lemma cache_ok_heap_ok: "cache_ok s \<longleftrightarrow> heap_ok (cache s) (heap s)"
  by (simp add: cache_ok_def heap_ok_def)

lemma heap_ok_step:
  assumes ok: "heap_ok c (objects st)" and step: "step L W gitCl repos act st = Some st'"
  shows "heap_ok c (objects st')"
proof (cases act)
  case Dispatch
  with step ok show ?thesis by (auto simp: step_Dispatch)
next
  case (Start i)
  with step ok show ?thesis by (auto simp: step_Start)
next
  case (Release i)
  with step ok show ?thesis by (auto simp: step_Release)
next
  case (WgDone i)
  with step ok show ?thesis by (auto simp: step_WgDone)
next
  case (Finish i)
  with step have alt: "case GetLicense L W gitCl (objects st ! (repos ! i)) of
           Panic \<Rightarrow> st' = st\<lparr>crashed := True\<rparr>
         | Return (evs, err1, r') \<Rightarrow>
             st' = st\<lparr>objects := (objects st)[repos ! i := r'],
                      trace := trace st @ evs
                        @ (case err1 of None \<Rightarrow> [] | Some e \<Rightarrow> [Log_Error e]),
                      phases := (phases st)[i := Returned]\<rparr>"
    by (simp add: step_Finish)
  show ?thesis
  proof (cases "GetLicense L W gitCl (objects st ! (repos ! i))")
    case Panic
    with alt ok show ?thesis by simp
  next
    case (Return x)
    obtain evs err1 r' where x: "x = (evs, err1, r')" by (cases x)
    with alt Return have o': "objects st' = (objects st)[repos ! i := r']" by simp
    show ?thesis
      unfolding heap_ok_def
    proof (intro allI impI)
      fix k a assume ka: "c k = Some a"
      with ok have a: "a < length (objects st)" and cf: "cached_for k (objects st ! a)"
        by (auto simp: heap_ok_def)
      show "a < length (objects st') \<and> cached_for k (objects st' ! a)"
      proof (cases "a = repos ! i")
        case True
        from Return x True have "GetLicense L W gitCl (objects st ! a) = Return (evs, err1, r')"
          by simp
        from this cf have "cached_for k r'" by (rule GetLicense_cached_for)
        with a True show ?thesis by (simp add: o')
      next
        case False
        with a cf show ?thesis by (simp add: o')
      qed
    qed
  qed
qed

lemma heap_ok_run:
  assumes "heap_ok c (objects st)" and "run L W gitCl repos sched st = Some st'"
  shows "heap_ok c (objects st')"
  using assms
proof (induction sched arbitrary: st)
  case Nil
  then show ?case by simp
next
  case (Cons act acts)
  from Cons.prems(2) obtain st1 where s1: "step L W gitCl repos act st = Some st1"
    and r: "run L W gitCl repos acts st1 = Some st'"
    by (auto split: option.splits)
  from Cons.prems(1) s1 have "heap_ok c (objects st1)" by (rule heap_ok_step)
  from Cons.IH [OF this r] show ?case .
qed

text \<open>The cache invariant holds in the initial memory and after every call of
  \<open>ParseDependencies\<close> from a memory in which it holds.\<close>

lemma ParseDependencies_cache_ok:
  assumes ok: "cache_ok s"
    and pd: "ParseDependencies L W sched s c includeIndirect thanks = Some (res, s', c', tr)"
  shows "cache_ok s'"
proof (cases "thanks \<and> Getenv W ''GITHUB_API_KEY'' = []")
  case True
  with pd ok show ?thesis by (auto simp: ParseDependencies_def)
next
  case False
  obtain evs lr s1 where lr: "ListRepositories L W s (path c) includeIndirect = (evs, lr, s1)"
    by (cases "ListRepositories L W s (path c) includeIndirect") auto
  have ok1: "cache_ok s1"
  proof (cases "Parse L W (path c) includeIndirect")
    case (Pair evs' pr)
    show ?thesis
    proof (cases pr)
      case (Inl err)
      with Pair lr ok show ?thesis by (simp add: ListRepositories_def)
    next
      case (Inr modules)
      obtain rs s2 where ra: "resolve_all s modules = (rs, s2)"
        by (cases "resolve_all s modules")
      with Pair Inr lr have "s1 = s2" by (simp add: ListRepositories_def)
      with resolve_all_cache_ok [OF ok ra] show ?thesis by simp
    qed
  qed
  show ?thesis
  proof (cases lr)
    case (Inl err)
    with pd False lr ok1 show ?thesis by (auto simp: ParseDependencies_def)
  next
    case (Inr repos)
    with pd False lr obtain st
      where en: "enrich L W (Getenv W ''GITHUB_API_KEY'') thanks sched (heap s1)
          (evs @ [Log_Found (length repos)]) repos = Some st"
        and s': "s' = s1\<lparr>heap := objects st\<rparr>"
      by (auto simp: ParseDependencies_def Let_def split: option.splits if_splits)
    from en obtain gitCl where "run L W gitCl repos sched
        (init_run (heap s1) (evs @ [Log_Found (length repos)]) (length repos)) = Some st"
      by (auto simp: enrich_def Let_def split: option.splits if_splits)
    moreover from ok1 have "heap_ok (cache s1)
        (objects (init_run (heap s1) (evs @ [Log_Found (length repos)]) (length repos)))"
      by (simp add: cache_ok_heap_ok init_run_def)
    ultimately have "heap_ok (cache s1) (objects st)" by (rule heap_ok_run [rotated])
    with s' show ?thesis by (simp add: cache_ok_heap_ok)
  qed
qed

text \<open>After the listing, \<open>ParseDependencies\<close> is its goroutines: when they are through
  it stores the whole list, in the order of resolution, and returns nil.\<close>

lemma ParseDependencies_enrich:
  assumes "\<not> (thanks \<and> Getenv W ''GITHUB_API_KEY'' = [])"
    and "ListRepositories L W s (path c) includeIndirect = (evs, Inr repos, s1)"
  shows "ParseDependencies L W sched s c includeIndirect thanks =
     (case enrich L W (Getenv W ''GITHUB_API_KEY'') thanks sched (heap s1)
             (evs @ [Log_Found (length repos)]) repos of
        None \<Rightarrow> None
      | Some st \<Rightarrow>
          if crashed st then Some (Panic, s1\<lparr>heap := objects st\<rparr>, c, trace st)
          else Some (Return None, s1\<lparr>heap := objects st\<rparr>, c\<lparr>dependencies := repos\<rparr>,
                     trace st))"
  using assms by (auto simp: ParseDependencies_def)

lemma ListRepositories_allocated:
  assumes "allocated s"
    and "ListRepositories L W s p includeIndirect = (evs, Inr repos, s1)"
  shows "\<forall>a\<in>set repos. a < length (heap s1)"
proof (cases "Parse L W p includeIndirect")
  case (Pair evs' pr)
  show ?thesis
  proof (cases pr)
    case (Inl err)
    with Pair assms(2) show ?thesis by (simp add: ListRepositories_def)
  next
    case (Inr modules)
    obtain rs s2 where ra: "resolve_all s modules = (rs, s2)"
      by (cases "resolve_all s modules")
    with Pair Inr assms(2) have "repos = rs" and "s1 = s2"
      by (simp_all add: ListRepositories_def)
    with resolve_all_allocated [OF assms(1) ra] show ?thesis by simp
  qed
qed

subsection \<open>C6: a failed license lookup is isolated\<close>

text \<open>
  C6: let \<open>ParseDependencies\<close> have listed the repositories \<open>repos\<close>, let one of them be
  on the known host github.com, and let the license-lookup API fail for it with \<open>err\<close>.
  Then \<open>GetLicense\<close> on it returns \<open>err\<close> and the repository as it was: no field is
  written. Unless a call of the list panics, the failure does not abort the run:
  every execution of the goroutines, from wherever it has got to, can run on to the end
  of \<open>ParseDependencies\<close>; and whenever \<open>ParseDependencies\<close> ends, under any schedule, it
  returns nil and has stored the whole list in the order of resolution, the failed
  repository is as it was (license-empty if it was), \<open>err\<close> is in the log, and every
  repository whose pointer is in the list once is as its own \<open>GetLicense\<close> call left it,
  whatever happened to the others. (In a memory with allocated cache pointers; the list
  may repeat a pointer.)
\<close>

theorem ParseDependencies_failure_isolated:
  assumes "\<not> (thanks \<and> Getenv W ''GITHUB_API_KEY'' = [])"
    and "allocated s"
    and "ListRepositories L W s (path c) includeIndirect = (evs, Inr repos, s1)"
    and "i < length repos"
    and "Host (heap s1 ! (repos ! i)) = ''github.com''"
    and "Repositories_License W (Author (heap s1 ! (repos ! i)))
           (Project (heap s1 ! (repos ! i))) = Inl err"
    and "\<forall>j<length repos.
        GetLicense L W (newGitClient [''github.com'' \<mapsto> Getenv W ''GITHUB_API_KEY''] thanks)
          (heap s1 ! (repos ! j)) \<noteq> Panic"
  shows "GetLicense L W (newGitClient [''github.com'' \<mapsto> Getenv W ''GITHUB_API_KEY''] thanks)
        (heap s1 ! (repos ! i))
      = Return ([Call_License (Author (heap s1 ! (repos ! i))) (Project (heap s1 ! (repos ! i)))],
                Some err, heap s1 ! (repos ! i))
    \<and> (\<forall>pre st.
          run L W (newGitClient [''github.com'' \<mapsto> Getenv W ''GITHUB_API_KEY''] thanks) repos pre
            (init_run (heap s1) (evs @ [Log_Found (length repos)]) (length repos)) = Some st
          \<longrightarrow> (\<exists>post s' tr. ParseDependencies L W (pre @ post) s c includeIndirect thanks
                  = Some (Return None, s', c\<lparr>dependencies := repos\<rparr>, tr)))
    \<and> (\<forall>sched res s' c' tr.
          ParseDependencies L W sched s c includeIndirect thanks = Some (res, s', c', tr)
          \<longrightarrow> res = Return None \<and> c' = c\<lparr>dependencies := repos\<rparr>
            \<and> heap s' ! (repos ! i) = heap s1 ! (repos ! i)
            \<and> Log_Error err \<in> set tr
            \<and> (\<forall>j<length repos. count_list repos (repos ! j) = 1 \<longrightarrow>
                  (\<forall>evs' e r'.
                     GetLicense L W
                       (newGitClient [''github.com'' \<mapsto> Getenv W ''GITHUB_API_KEY''] thanks)
                       (heap s1 ! (repos ! j)) = Return (evs', e, r')
                     \<longrightarrow> heap s' ! (repos ! j) = r')))"
proof -
  define gitCl where "gitCl = newGitClient [''github.com'' \<mapsto> Getenv W ''GITHUB_API_KEY''] thanks"
  define h where "h = heap s1"
  define tr0 where "tr0 = evs @ [Log_Found (length repos)]"
  define init where "init = init_run h tr0 (length repos)"
  note nopanic = assms(7) [folded gitCl_def h_def]
  from assms(5,6) have fail: "GetLicense L W gitCl (h ! (repos ! i))
      = Return ([Call_License (Author (h ! (repos ! i))) (Project (h ! (repos ! i)))],
                Some err, h ! (repos ! i))"
    unfolding h_def by (rule GetLicense_api_failure)
  from assms(2,3) have valid: "\<forall>a\<in>set repos. a < length h"
    unfolding h_def by (rule ListRepositories_allocated)
  have pd: "ParseDependencies L W sched s c includeIndirect thanks =
     (case enrich L W (Getenv W ''GITHUB_API_KEY'') thanks sched h tr0 repos of
        None \<Rightarrow> None
      | Some st \<Rightarrow>
          if crashed st then Some (Panic, s1\<lparr>heap := objects st\<rparr>, c, trace st)
          else Some (Return None, s1\<lparr>heap := objects st\<rparr>, c\<lparr>dependencies := repos\<rparr>,
                     trace st))" for sched
    unfolding h_def tr0_def using assms(1,3) by (rule ParseDependencies_enrich)
  have en: "enrich L W (Getenv W ''GITHUB_API_KEY'') thanks sched h tr0 repos =
     (case run L W gitCl repos sched init of
        None \<Rightarrow> None
      | Some st \<Rightarrow> if crashed st \<or> joined repos st then Some st else None)" for sched
    by (simp add: enrich_def gitCl_def init_def)
  have reach: "inv_count repos st \<and> inv_objects L W gitCl h repos st
      \<and> inv_failed h repos i err st \<and> \<not> crashed st"
    if r: "run L W gitCl repos sched init = Some st" for sched st
  proof -
    have c0: "inv_count repos init" unfolding init_def by (rule inv_count_init)
    have o0: "inv_objects L W gitCl h repos init" unfolding init_def by (rule inv_objects_init)
    have f0: "inv_failed h repos i err init"
      unfolding init_def using assms(4) by (rule inv_failed_init)
    from invariants_run [OF c0 o0 valid r]
    have c: "inv_count repos st" and ob: "inv_objects L W gitCl h repos st" by simp_all
    from c0 o0 f0 valid assms(4) fail r have f: "inv_failed h repos i err st"
      by (rule inv_failed_run)
    from ob nopanic have "\<not> crashed st" by (auto simp: inv_objects_def)
    with c ob f show ?thesis by simp
  qed
  have second: "\<exists>post s' tr. ParseDependencies L W (pre @ post) s c includeIndirect thanks
      = Some (Return None, s', c\<lparr>dependencies := repos\<rparr>, tr)"
    if r: "run L W gitCl repos pre init = Some st" for pre st
  proof -
    from reach [OF r] have "inv_count repos st" "inv_objects L W gitCl h repos st"
      "\<not> crashed st"
      by simp_all
    from run_completes [OF this(1,2) valid nopanic this(3)]
    obtain post st' where "run L W gitCl repos post st = Some st'"
      and fin: "\<not> crashed st'" "joined repos st'"
      by blast
    with r have "run L W gitCl repos (pre @ post) init = Some st'"
      by (simp add: run_append)
    with fin have "enrich L W (Getenv W ''GITHUB_API_KEY'') thanks (pre @ post) h tr0 repos
        = Some st'"
      by (simp add: en)
    with fin(1) have "ParseDependencies L W (pre @ post) s c includeIndirect thanks
        = Some (Return None, s1\<lparr>heap := objects st'\<rparr>, c\<lparr>dependencies := repos\<rparr>, trace st')"
      by (simp add: pd)
    then show ?thesis by blast
  qed
  have third: "res = Return None \<and> c' = c\<lparr>dependencies := repos\<rparr>
      \<and> heap s' ! (repos ! i) = h ! (repos ! i)
      \<and> Log_Error err \<in> set tr
      \<and> (\<forall>j<length repos. count_list repos (repos ! j) = 1 \<longrightarrow>
            (\<forall>evs' e r'. GetLicense L W gitCl (h ! (repos ! j)) = Return (evs', e, r')
               \<longrightarrow> heap s' ! (repos ! j) = r'))"
    if p: "ParseDependencies L W sched s c includeIndirect thanks = Some (res, s', c', tr)"
    for sched res s' c' tr
  proof -
    from p obtain st
      where e: "enrich L W (Getenv W ''GITHUB_API_KEY'') thanks sched h tr0 repos = Some st"
      by (auto simp: pd split: option.splits)
    then have r: "run L W gitCl repos sched init = Some st"
      and fin: "crashed st \<or> joined repos st"
      by (auto simp: en split: option.splits if_splits)
    from reach [OF r] have c: "inv_count repos st" and ob: "inv_objects L W gitCl h repos st"
      and f: "inv_failed h repos i err st" and nc: "\<not> crashed st"
      by simp_all
    from fin nc have jn: "joined repos st" by simp
    from p e nc have res: "res = Return None" "s' = s1\<lparr>heap := objects st\<rparr>"
      "c' = c\<lparr>dependencies := repos\<rparr>" "tr = trace st"
      by (simp_all add: pd)
    from c jn assms(4) have "phases st ! i = Done" by (rule inv_count_joined)
    with f have a: "objects st ! (repos ! i) = h ! (repos ! i)"
      and l: "Log_Error err \<in> set (trace st)"
      by (simp_all add: inv_failed_def pending_def)
    have "objects st ! (repos ! j) = r'"
      if j: "j < length repos" and one: "count_list repos (repos ! j) = 1"
        and g: "GetLicense L W gitCl (h ! (repos ! j)) = Return (evs', e, r')"
      for j evs' e r'
    proof -
      from c jn j have "phases st ! j = Done" by (rule inv_count_joined)
      with ob j one
      have "enriched L W gitCl (h ! (repos ! j)) (objects st ! (repos ! j)) (trace st)"
        by (simp add: inv_objects_def pending_def)
      with g show ?thesis by (auto simp: enriched_def)
    qed
    with res a l show ?thesis by simp
  qed
  from fail second third show ?thesis
    unfolding gitCl_def h_def tr0_def init_def by blast
qed

subsection \<open>The witnesses of C5, C6 and C7\<close>

lemma run_five_running:
  "run example_lib example_world \<lparr>logged = False, star = False\<rparr> six_repos five_running
     (init_run six_heap [] (length six_repos)) = Some five_state"
  by code_simp

theorem in_flight_bounded_witness:
  "run example_lib example_world \<lparr>logged = False, star = False\<rparr> six_repos five_running
     (init_run six_heap [] (length six_repos)) = Some five_state
   \<and> in_flight five_state = 5 \<and> in_flight five_state \<le> 5
   \<and> sem five_state = 5 \<and> sem five_state \<le> sem_capacity
   \<and> step example_lib example_world \<lparr>logged = False, star = False\<rparr> six_repos Dispatch
        five_state = None"
proof -
  have five: "in_flight five_state = 5"
    by (simp add: in_flight_def five_state_def)
  have blocked: "step example_lib example_world \<lparr>logged = False, star = False\<rparr> six_repos
      Dispatch five_state = None"
    by (simp add: step_def five_state_def sem_capacity_def)
  have full: "sem five_state = 5"
    by (simp add: five_state_def)
  from in_flight_bounded [OF run_five_running] run_five_running five full blocked
  show ?thesis by simp
qed

lemma ListRepositories_known:
  "ListRepositories example_lib example_world known_memory (path example_client) False
     = known_listed"
  by (simp add: ListRepositories_def Parse_def example_lib_def ascii_lib_def example_world_def
      example_client_def goMod_def example_requires_def getRepository_def getOtherRepo_miss
      getOtherRepo_hit known_memory_def known_listed_def)

lemma ParseDependencies_known:
  "map_option (\<lambda>(res, s, c, tr). (res, heap s, dependencies c, tr))
     (ParseDependencies example_lib example_world example_schedule known_memory example_client
        False False)
   = Some (Return None,
       [\<lparr>Name = ''github.com/pkg/errors'', Shortname = [],
         URL = ''https://github.com/pkg/errors'', Host = ''github.com'', Author = ''pkg'',
         Project = ''errors'', Text = [], License = [], Version = ''v0.9.1''\<rparr>,
        \<lparr>Name = ''example.com/a'', Shortname = ''MIT'',
         URL = ''https://pkg.go.dev/example.com/a'', Host = ''pkg.go.dev'', Author = [],
         Project = ''github.com/example/a'', Text = [], License = [],
         Version = ''v1.0.0 (!new:v1.2.0)''\<rparr>],
       [1, 0],
       [Read_File ''./go.mod'', Log_Found 2,
        Log_Fetching ''https://pkg.go.dev/example.com/a'',
        Log_Fetching ''https://github.com/pkg/errors'',
        Call_License ''pkg'' ''errors'', Log_Error (Err ''404 Not Found''),
        Call_Visit ''https://pkg.go.dev/example.com/a''])"
  by code_simp

theorem ParseDependencies_failure_isolated_witness:
  "allocated known_memory
   \<and> ListRepositories example_lib example_world known_memory (path example_client) False
       = known_listed
   \<and> Host (heap (snd (snd known_listed)) ! 0) = ''github.com''
   \<and> Repositories_License example_world ''pkg'' ''errors'' = Inl (Err ''404 Not Found'')
   \<and> GetLicense example_lib example_world \<lparr>logged = False, star = False\<rparr>
        (heap (snd (snd known_listed)) ! 0)
       = Return ([Call_License ''pkg'' ''errors''], Some (Err ''404 Not Found''),
                 heap (snd (snd known_listed)) ! 0)
   \<and> map_option (\<lambda>(res, s, c, tr). (res, heap s, dependencies c, tr))
        (ParseDependencies example_lib example_world example_schedule known_memory
           example_client False False)
       = Some (Return None,
           [\<lparr>Name = ''github.com/pkg/errors'', Shortname = [],
             URL = ''https://github.com/pkg/errors'', Host = ''github.com'', Author = ''pkg'',
             Project = ''errors'', Text = [], License = [], Version = ''v0.9.1''\<rparr>,
            \<lparr>Name = ''example.com/a'', Shortname = ''MIT'',
             URL = ''https://pkg.go.dev/example.com/a'', Host = ''pkg.go.dev'', Author = [],
             Project = ''github.com/example/a'', Text = [], License = [],
             Version = ''v1.0.0 (!new:v1.2.0)''\<rparr>],
           [1, 0],
           [Read_File ''./go.mod'', Log_Found 2,
            Log_Fetching ''https://pkg.go.dev/example.com/a'',
            Log_Fetching ''https://github.com/pkg/errors'',
            Call_License ''pkg'' ''errors'', Log_Error (Err ''404 Not Found''),
            Call_Visit ''https://pkg.go.dev/example.com/a''])"
proof -
  define s1 where "s1 = known_memory\<lparr>cache := (cache known_memory)(''example.com/a'' \<mapsto> 1),
        heap := heap known_memory
          @ [\<lparr>Name = ''example.com/a'', Shortname = [],
               URL = ''https://pkg.go.dev/example.com/a'', Host = ''pkg.go.dev'',
               Author = [], Project = [], Text = [], License = [],
               Version = ''v1.0.0''\<rparr>]\<rparr>"
  have s1: "snd (snd known_listed) = s1"
    by (simp add: known_listed_def s1_def)
  have hp: "heap s1 = [\<lparr>Name = ''github.com/pkg/errors'', Shortname = [],
               URL = ''https://github.com/pkg/errors'', Host = ''github.com'',
               Author = ''pkg'', Project = ''errors'', Text = [], License = [],
               Version = ''v0.9.1''\<rparr>,
             \<lparr>Name = ''example.com/a'', Shortname = [],
               URL = ''https://pkg.go.dev/example.com/a'', Host = ''pkg.go.dev'',
               Author = [], Project = [], Text = [], License = [],
               Version = ''v1.0.0''\<rparr>]"
    by (simp add: s1_def known_memory_def)
  have cl: "newGitClient [''github.com'' \<mapsto> Getenv example_world ''GITHUB_API_KEY''] False
      = \<lparr>logged = False, star = False\<rparr>"
    by (simp add: newGitClient_def Getenv_def example_world_def)
  have h1: "\<not> (False \<and> Getenv example_world ''GITHUB_API_KEY'' = [])"
    by simp
  have h2: "allocated known_memory"
    by (simp add: allocated_def known_memory_def)
  have h3: "ListRepositories example_lib example_world known_memory (path example_client) False
      = ([Read_File ''./go.mod''], Inr [1, 0], s1)"
    using ListRepositories_known by (simp add: known_listed_def s1_def)
  have h4: "1 < length [1, 0 :: nat]"
    by simp
  have h5: "Host (heap s1 ! ([1, 0] ! 1)) = ''github.com''"
    by (simp add: hp)
  have h6: "Repositories_License example_world (Author (heap s1 ! ([1, 0] ! 1)))
      (Project (heap s1 ! ([1, 0] ! 1))) = Inl (Err ''404 Not Found'')"
    by (simp add: example_world_def)
  have h7: "\<forall>j<length [1, 0 :: nat].
      GetLicense example_lib example_world
        (newGitClient [''github.com'' \<mapsto> Getenv example_world ''GITHUB_API_KEY''] False)
        (heap s1 ! ([1, 0] ! j)) \<noteq> Panic"
  proof (intro allI impI)
    fix j :: nat assume "j < length [1, 0 :: nat]"
    then consider "j = 0" | "j = 1" by fastforce
    then show "GetLicense example_lib example_world
        (newGitClient [''github.com'' \<mapsto> Getenv example_world ''GITHUB_API_KEY''] False)
        (heap s1 ! ([1, 0] ! j)) \<noteq> Panic"
      by cases (simp_all add: GetLicense_def hp example_world_def scrape_def
          on_version_def Let_def)
  qed
  note t = ParseDependencies_failure_isolated [OF h1 h2 h3 h4 h5 h6 h7]
  from t [THEN conjunct1] have first: "GetLicense example_lib example_world
      \<lparr>logged = False, star = False\<rparr> (heap s1 ! 0)
     = Return ([Call_License ''pkg'' ''errors''], Some (Err ''404 Not Found''), heap s1 ! 0)"
    by (simp add: cl hp)
  have h5': "Host (heap s1 ! 0) = ''github.com''"
    by (simp add: hp)
  have h6': "Repositories_License example_world ''pkg'' ''errors'' = Inl (Err ''404 Not Found'')"
    by (simp add: example_world_def)
  from first h2 ListRepositories_known h5' h6' ParseDependencies_known show ?thesis
    by (simp only: s1 simp_thms)
qed

theorem ParseDependencies_no_api_key_witness:
  "environ example_world ''GITHUB_API_KEY'' = None
   \<and> ParseDependencies example_lib example_world example_schedule init_memory example_client
        False True
       = Some (Return (Some ErrNoAPIKey), init_memory, example_client, [])"
proof -
  have h: "environ example_world ''GITHUB_API_KEY'' = None"
    by (simp add: example_world_def)
  then have "environ example_world ''GITHUB_API_KEY'' = None
      \<or> environ example_world ''GITHUB_API_KEY'' = Some []"
    by simp
  from ParseDependencies_no_api_key [OF TrueI this] h show ?thesis by simp
qed

text \<open>The same call without \<open>thanks\<close>: the manifest is read, the two direct requirements
  are resolved and enriched, and the call returns nil with both in the list, in the
  order of the manifest.\<close>

lemma ParseDependencies_example:
  "map_option (\<lambda>(res, s, c, tr). (res, heap s, c, tr))
     (ParseDependencies example_lib example_world example_schedule init_memory example_client
        False False)
   = Some (Return None,
       [\<lparr>Name = ''example.com/a'', Shortname = ''MIT'',
         URL = ''https://pkg.go.dev/example.com/a'', Host = ''pkg.go.dev'', Author = [],
         Project = ''github.com/example/a'', Text = [], License = [],
         Version = ''v1.0.0 (!new:v1.2.0)''\<rparr>,
        \<lparr>Name = ''github.com/pkg/errors'', Shortname = [],
         URL = ''https://pkg.go.dev/github.com/pkg/errors'', Host = ''pkg.go.dev'',
         Author = [], Project = [], Text = [], License = [], Version = ''v0.9.1''\<rparr>],
       example_client\<lparr>dependencies := [0, 1]\<rparr>,
       [Read_File ''./go.mod'', Log_Found 2,
        Log_Fetching ''https://pkg.go.dev/example.com/a'',
        Log_Fetching ''https://pkg.go.dev/github.com/pkg/errors'',
        Call_Visit ''https://pkg.go.dev/github.com/pkg/errors'',
        Println_error ''https://pkg.go.dev/github.com/pkg/errors'' (Err ''Not Found''),
        Call_Visit ''https://pkg.go.dev/example.com/a''])"
  by code_simp

section \<open>Properties of rendering\<close>

text \<open>Without write errors, the CSV report is the header row followed by the rows, in
  the order of the list.\<close>

lemma write_rows_ok:
  assumes "\<forall>k. Write_result K k = None"
  shows "write_rows K k rows written = (Error_result K, written @ rows)"
  using assms by (induction rows arbitrary: k written) simp_all

lemma Print_csv:
  assumes "format c = ''csv''" and "dependencies c \<noteq> []" and "\<forall>k. Write_result K k = None"
  shows "Print L K h c =
     (Error_result K,
      Some (Csv (headerRow
        # map (\<lambda>a. [Project (h ! a), URL (h ! a), License (h ! a)]) (dependencies c))))"
proof -
  from assms(2) have "\<not> length (dependencies c) < 1" by (cases "dependencies c") simp_all
  with assms(1,3) show ?thesis
    by (simp add: Print_def write_rows_ok Let_def)
qed

subsection \<open>C8: the CSV report\<close>

text \<open>
  C8 says that the CSV report has the header row Dependency, RepoURL, License, Version
  and one row per repository with its dependency name, URL, license and version under
  these columns. The row the code writes has three fields: \<open>Project\<close>, \<open>URL\<close> and
  \<open>License\<close>. There is no version, and the first field is not the dependency's name.
  For the list of one enriched repository (example.com/a at v1.0.0) the CSV report is the
  header row and the row github.com/example/a, https://pkg.go.dev/example.com/a, (empty),
  while the table, from the same list, has the four columns.
\<close>

theorem Print_csv_three_fields:
  "Print example_lib example_sink
     [\<lparr>Name = ''example.com/a'', Shortname = ''MIT'',
       URL = ''https://pkg.go.dev/example.com/a'', Host = ''pkg.go.dev'', Author = [],
       Project = ''github.com/example/a'', Text = [], License = [],
       Version = ''v1.0.0''\<rparr>]
     \<lparr>dependencies = [0], path = ''.'', format = ''csv'', output' = ''stdout''\<rparr>
   = (None,
      Some (Csv [[''Dependency'', ''RepoURL'', ''License'', ''Version''],
                 [''github.com/example/a'', ''https://pkg.go.dev/example.com/a'', []]]))
   \<and> snd (Print example_lib example_sink
       [\<lparr>Name = ''example.com/a'', Shortname = ''MIT'',
         URL = ''https://pkg.go.dev/example.com/a'', Host = ''pkg.go.dev'', Author = [],
         Project = ''github.com/example/a'', Text = [], License = [],
         Version = ''v1.0.0''\<rparr>]
       \<lparr>dependencies = [0], path = ''.'', format = ''table'', output' = ''stdout''\<rparr>)
     = Some (Table [''Dependency'', ''RepoURL'', ''License'', ''Version'']
               [[''example.com/a'', ''https://pkg.go.dev/example.com/a'', ''MIT'',
                 ''v1.0.0'']])"
  by (simp add: Print_def headerRow_def example_sink_def example_lib_def ascii_lib_def)

end
